theory Spec2Isabelle
  imports Main "HOL-Library.Word" "HOL-Library.Char_ord" "HOL-Library.List_Lexorder"
    "HOL-Library.Multiset"
begin

section \<open>Data model of the DMARC aggregate report tool\<close>

text \<open>
  The program is the Go command of the repository in its last revision (the one that
  collects the reports, sorts them and prints them). Go strings are byte strings
  (\<^typ>\<open>string\<close>), \<^verbatim>\<open>int64\<close> is \<^typ>\<open>64 word\<close> (\<open>+=\<close> wraps around),
  \<^verbatim>\<open>int\<close> is 64 bits wide, and \<^verbatim>\<open>log.Fatalf\<close>, which ends the process, is the
  \<open>Inl\<close> branch of a sum type.
\<close>

type_synonym int64 = "64 word"

record AggregateReportRecord =
  SourceIP :: string
  HeaderFrom :: string
  Count :: int64
  Disposition :: string
  EvalDKIM :: string
  EvalSPF :: string

record AggregateReport =
  Organization :: string
  Email :: string
  ReportID :: string
  DateRangeBegin :: string
  DateRangeEnd :: string
  Domain :: string
  AlignDKIM :: string
  AlignSPF :: string
  Policy :: string
  SubdomainPolicy :: string
  Percentage :: int64
  Records :: "AggregateReportRecord list"

record ReportRow =
  HeaderFrom :: string
  DKIMPass :: int64
  DKIMFail :: int64
  SPFPass :: int64
  SPFFail :: int64
  PolicyNone :: int64
  PolicyQuarantine :: int64
  PolicyReject :: int64

text \<open>
  A \<^verbatim>\<open>time.Time\<close> built by \<^verbatim>\<open>time.Unix(sec, 0)\<close> holds the seconds since
  January 1 of year 1 in an \<^verbatim>\<open>int64\<close>: \<^verbatim>\<open>sec + unixToInternal\<close>, computed with
  wrap-around. \<^verbatim>\<open>Before\<close> and \<^verbatim>\<open>Equal\<close> compare that field.
\<close>

datatype Time = Time (ext: int64)

definition unixToInternal :: int64 where
  "unixToInternal = 62135596800"

definition Unix :: "int64 \<Rightarrow> Time" where
  "Unix sec = Time (sec + unixToInternal)"

definition Time_Unix :: "Time \<Rightarrow> int64" where
  "Time_Unix t = ext t - unixToInternal"

definition Before :: "Time \<Rightarrow> Time \<Rightarrow> bool" where
  "Before t u = (ext t <s ext u)"

definition Equal :: "Time \<Rightarrow> Time \<Rightarrow> bool" where
  "Equal t u = (ext t = ext u)"

text \<open>
  \<^verbatim>\<open>Domains map[string]*ReportRow\<close>: every row is allocated by \<open>Add\<close> under its own
  key and reached only through that key, so the map of pointers is a map of rows.
\<close>

record Report =
  DateBegin :: Time
  DateEnd :: Time
  Domains :: "string \<rightharpoonup> ReportRow"
  Organization :: string
  Domain :: string

datatype error =
    DecodeError
  | UnexpectedDisposition string
  | UnexpectedDKIM string
  | UnexpectedSPF string
  | UnknownSortOption string

section \<open>Report.Add\<close>

text \<open>The composite literal \<^verbatim>\<open>&ReportRow{HeaderFrom: rec.HeaderFrom}\<close>: all counters zero.\<close>

definition new_ReportRow :: "string \<Rightarrow> ReportRow" where
  "new_ReportRow h =
     \<lparr>ReportRow.HeaderFrom = h, DKIMPass = 0, DKIMFail = 0, SPFPass = 0, SPFFail = 0,
      PolicyNone = 0, PolicyQuarantine = 0, PolicyReject = 0\<rparr>"

text \<open>The row \<open>rr\<close> that \<open>Add\<close> works on: the one found under the key, or a new one.\<close>

definition lookup_row :: "(string \<rightharpoonup> ReportRow) \<Rightarrow> string \<Rightarrow> ReportRow" where
  "lookup_row m h = (case m h of None \<Rightarrow> new_ReportRow h | Some rr \<Rightarrow> rr)"

definition add_Disposition :: "AggregateReportRecord \<Rightarrow> ReportRow \<Rightarrow> error + ReportRow" where
  "add_Disposition rec rr =
     (if Disposition rec = ''none'' then Inr (rr\<lparr>PolicyNone := PolicyNone rr + Count rec\<rparr>)
      else if Disposition rec = ''quarantine''
        then Inr (rr\<lparr>PolicyQuarantine := PolicyQuarantine rr + Count rec\<rparr>)
      else if Disposition rec = ''reject''
        then Inr (rr\<lparr>PolicyReject := PolicyReject rr + Count rec\<rparr>)
      else Inl (UnexpectedDisposition (Disposition rec)))"

definition add_EvalDKIM :: "AggregateReportRecord \<Rightarrow> ReportRow \<Rightarrow> error + ReportRow" where
  "add_EvalDKIM rec rr =
     (if EvalDKIM rec = ''pass'' then Inr (rr\<lparr>DKIMPass := DKIMPass rr + Count rec\<rparr>)
      else if EvalDKIM rec = ''fail'' then Inr (rr\<lparr>DKIMFail := DKIMFail rr + Count rec\<rparr>)
      else Inl (UnexpectedDKIM (EvalDKIM rec)))"

definition add_EvalSPF :: "AggregateReportRecord \<Rightarrow> ReportRow \<Rightarrow> error + ReportRow" where
  "add_EvalSPF rec rr =
     (if EvalSPF rec = ''pass'' then Inr (rr\<lparr>SPFPass := SPFPass rr + Count rec\<rparr>)
      else if EvalSPF rec = ''fail'' then Inr (rr\<lparr>SPFFail := SPFFail rr + Count rec\<rparr>)
      else Inl (UnexpectedSPF (EvalSPF rec)))"

text \<open>
  \<open>Add\<close> runs the three switches in the order of the source; the first token outside its
  enumeration ends the process, so the state it leaves behind is never observed.
\<close>

definition Report_Add :: "Report \<Rightarrow> AggregateReportRecord \<Rightarrow> error + Report" where
  "Report_Add r rec =
     (let h = AggregateReportRecord.HeaderFrom rec;
          rr = lookup_row (Domains r) h
      in case add_Disposition rec rr of
           Inl e \<Rightarrow> Inl e
         | Inr rr1 \<Rightarrow>
            (case add_EvalDKIM rec rr1 of
               Inl e \<Rightarrow> Inl e
             | Inr rr2 \<Rightarrow>
                (case add_EvalSPF rec rr2 of
                   Inl e \<Rightarrow> Inl e
                 | Inr rr3 \<Rightarrow> Inr (r\<lparr>Domains := (Domains r)(h \<mapsto> rr3)\<rparr>))))"

text \<open>The loop \<^verbatim>\<open>for _, rec := range fb.Records { report.Add(rec) }\<close>.\<close>

fun Add_all :: "Report \<Rightarrow> AggregateReportRecord list \<Rightarrow> error + Report" where
  "Add_all r [] = Inr r"
| "Add_all r (rec # recs) =
     (case Report_Add r rec of Inl e \<Rightarrow> Inl e | Inr r' \<Rightarrow> Add_all r' recs)"

text \<open>The closed enumerations of the three tokens.\<close>

definition valid_tokens :: "AggregateReportRecord \<Rightarrow> bool" where
  "valid_tokens rec \<longleftrightarrow>
     Disposition rec \<in> {''none'', ''quarantine'', ''reject''} \<and>
     EvalDKIM rec \<in> {''pass'', ''fail''} \<and>
     EvalSPF rec \<in> {''pass'', ''fail''}"

section \<open>Date fields: strings.TrimSpace, strconv.Atoi, time.Unix\<close>

text \<open>
  The byte sequences (UTF-8) of the code points for which \<^verbatim>\<open>unicode.IsSpace\<close> holds:
  tab, line feed, vertical tab, form feed, carriage return, space, U+0085, U+00A0,
  U+1680, U+2000 to U+200A, U+2028, U+2029, U+202F, U+205F and U+3000.
\<close>

definition White_Space :: "string list" where
  "White_Space =
     [[CHR 0x09], [CHR 0x0A], [CHR 0x0B], [CHR 0x0C], [CHR 0x0D], [CHR 0x20],
      [CHR 0xC2, CHR 0x85], [CHR 0xC2, CHR 0xA0], [CHR 0xE1, CHR 0x9A, CHR 0x80],
      [CHR 0xE2, CHR 0x80, CHR 0x80], [CHR 0xE2, CHR 0x80, CHR 0x81],
      [CHR 0xE2, CHR 0x80, CHR 0x82], [CHR 0xE2, CHR 0x80, CHR 0x83],
      [CHR 0xE2, CHR 0x80, CHR 0x84], [CHR 0xE2, CHR 0x80, CHR 0x85],
      [CHR 0xE2, CHR 0x80, CHR 0x86], [CHR 0xE2, CHR 0x80, CHR 0x87],
      [CHR 0xE2, CHR 0x80, CHR 0x88], [CHR 0xE2, CHR 0x80, CHR 0x89],
      [CHR 0xE2, CHR 0x80, CHR 0x8A], [CHR 0xE2, CHR 0x80, CHR 0xA8],
      [CHR 0xE2, CHR 0x80, CHR 0xA9], [CHR 0xE2, CHR 0x80, CHR 0xAF],
      [CHR 0xE2, CHR 0x81, CHR 0x9F], [CHR 0xE3, CHR 0x80, CHR 0x80]]"

text \<open>The width in bytes of the white-space rune that starts \<open>s\<close>, 0 when there is none.\<close>

definition space_width :: "string list \<Rightarrow> string \<Rightarrow> nat" where
  "space_width ws s =
     (case find (\<lambda>w. w \<noteq> [] \<and> take (length w) s = w) ws of None \<Rightarrow> 0 | Some w \<Rightarrow> length w)"

function TrimLeft :: "string list \<Rightarrow> string \<Rightarrow> string" where
  "TrimLeft ws s = (if space_width ws s = 0 then s else TrimLeft ws (drop (space_width ws s) s))"
  by pat_completeness auto
termination
proof (relation "measure (\<lambda>(ws, s). length s)")
  show "wf (measure (\<lambda>(ws, s). length s))" by simp
next
  fix ws :: "string list" and s :: string
  assume pos: "space_width ws s \<noteq> 0"
  have "s \<noteq> []"
  proof
    assume "s = []"
    then have "find (\<lambda>w. w \<noteq> [] \<and> take (length w) s = w) ws = None"
      by (auto simp: find_None_iff)
    then show False using pos by (simp add: space_width_def)
  qed
  then show "((ws, drop (space_width ws s) s), (ws, s)) \<in> measure (\<lambda>(ws, s). length s)"
    using pos by (cases s) auto
qed

declare TrimLeft.simps [simp del]

definition TrimSpace :: "string \<Rightarrow> string" where
  "TrimSpace s = rev (TrimLeft (map rev White_Space) (rev (TrimLeft White_Space s)))"

datatype NumError = ErrSyntax | ErrRange

definition is_digit :: "char \<Rightarrow> bool" where
  "is_digit c \<longleftrightarrow> CHR ''0'' \<le> c \<and> c \<le> CHR ''9''"

definition digit_val :: "char \<Rightarrow> int" where
  "digit_val c = of_char c - of_char CHR ''0''"

definition maxUint64 :: int where
  "maxUint64 = 2 ^ 64 - 1"

text \<open>
  The loop of \<^verbatim>\<open>strconv.ParseUint(s, 10, 64)\<close>: a byte that is no digit is a syntax
  error with value 0; an accumulator that leaves the 64 bits is a range error with the
  maximal value, returned at once, before the rest of the text is read.
\<close>

fun ParseUint_loop :: "int \<Rightarrow> string \<Rightarrow> int \<times> NumError option" where
  "ParseUint_loop n [] = (n, None)"
| "ParseUint_loop n (c # s) =
     (if \<not> is_digit c then (0, Some ErrSyntax)
      else if n \<ge> maxUint64 div 10 + 1 then (maxUint64, Some ErrRange)
      else if n * 10 + digit_val c > maxUint64 then (maxUint64, Some ErrRange)
      else ParseUint_loop (n * 10 + digit_val c) s)"

definition ParseUint :: "string \<Rightarrow> int \<times> NumError option" where
  "ParseUint s = (if s = [] then (0, Some ErrSyntax) else ParseUint_loop 0 s)"

text \<open>
  \<^verbatim>\<open>strconv.Atoi\<close> is \<^verbatim>\<open>ParseInt(s, 10, 0)\<close> with a 64-bit \<^verbatim>\<open>int\<close>: an optional sign,
  then \<open>ParseUint\<close>; a syntax error gives 0, a magnitude beyond the signed range gives
  the nearest bound together with a range error.
\<close>

definition Atoi :: "string \<Rightarrow> int64 \<times> NumError option" where
  "Atoi s =
     (if s = [] then (0, Some ErrSyntax)
      else
        let neg = (hd s = CHR ''-'');
            body = (if hd s = CHR ''+'' \<or> hd s = CHR ''-'' then tl s else s);
            (un, err) = ParseUint body
        in if err = Some ErrSyntax then (0, Some ErrSyntax)
           else if \<not> neg \<and> un \<ge> 2 ^ 63 then (2 ^ 63 - 1, Some ErrRange)
           else if neg \<and> un > 2 ^ 63 then (- (2 ^ 63), Some ErrRange)
           else (if neg then - word_of_int un else word_of_int un, None))"

text \<open>The methods \<open>DateBegin\<close> and \<open>DateEnd\<close> drop the error of \<open>Atoi\<close>.\<close>

definition AggregateReport_DateBegin :: "AggregateReport \<Rightarrow> Time" where
  "AggregateReport_DateBegin r = Unix (fst (Atoi (TrimSpace (DateRangeBegin r))))"

definition AggregateReport_DateEnd :: "AggregateReport \<Rightarrow> Time" where
  "AggregateReport_DateEnd r = Unix (fst (Atoi (TrimSpace (DateRangeEnd r))))"

section \<open>parse\<close>

text \<open>
  A stream is given by what \<^verbatim>\<open>xml.NewDecoder(r).Decode(fb)\<close> makes of it: \<open>None\<close> when
  the decoder returns an error, the decoded document otherwise.
\<close>

type_synonym stream = "AggregateReport option"

definition new_Report :: "AggregateReport \<Rightarrow> Report" where
  "new_Report fb =
     \<lparr>DateBegin = AggregateReport_DateBegin fb,
      DateEnd = AggregateReport_DateEnd fb,
      Domains = Map.empty,
      Organization = AggregateReport.Organization fb,
      Domain = AggregateReport.Domain fb\<rparr>"

definition aggregate :: "AggregateReport \<Rightarrow> error + Report" where
  "aggregate fb = Add_all (new_Report fb) (Records fb)"

definition parse :: "stream \<Rightarrow> error + Report" where
  "parse s = (case s of None \<Rightarrow> Inl DecodeError | Some fb \<Rightarrow> aggregate fb)"

section \<open>Time.UTC().Format\<close>

text \<open>
  \<^verbatim>\<open>Time.abs\<close>: the seconds of a UTC time counted from January 1 of the absolute zero
  year \<open>-292277022399\<close>, as a \<^verbatim>\<open>uint64\<close>. The sum is made in \<^verbatim>\<open>int64\<close> and wraps
  around; the absolute seconds are the unsigned reading of the result.
\<close>

definition internalToAbsolute :: int64 where
  "internalToAbsolute = 9223371966579724800"

definition Time_abs :: "Time \<Rightarrow> int" where
  "Time_abs t = uint (Time_Unix t + (unixToInternal + internalToAbsolute))"

text \<open>
  The calendar computation of package \<^verbatim>\<open>time\<close>: days are cut into cycles of 400, 100, 4
  and 1 years, then the day of the year into month and day with the table
  \<^verbatim>\<open>daysBefore\<close>. The absolute zero year is 730692556 cycles of 400 years before year
  1, and the Unix epoch 9223372028715321600 seconds, a whole number of days, after its
  first second; \<open>absDate\<close> takes the days counted from the Unix epoch and cuts the
  cycles from January 1 of year 1 (day \<open>-719162\<close> of the Unix era), which are the
  cycles of the library moved by 730692556 cycles of 400 years.
\<close>

definition isLeap :: "int \<Rightarrow> bool" where
  "isLeap year \<longleftrightarrow> year mod 4 = 0 \<and> (year mod 100 \<noteq> 0 \<or> year mod 400 = 0)"

definition daysBefore :: "nat list" where
  "daysBefore = [0, 31, 59, 90, 120, 151, 181, 212, 243, 273, 304, 334, 365]"

definition absDate :: "int \<Rightarrow> int \<times> nat" where
  "absDate days =
     (let d = days + 719162;
          n400 = d div 146097;
          d1 = d - 146097 * n400;
          q100 = d1 div 36524;
          n100 = q100 - q100 div 4;
          d2 = d1 - 36524 * n100;
          n4 = d2 div 1461;
          d3 = d2 - 1461 * n4;
          q1 = d3 div 365;
          n1 = q1 - q1 div 4;
          d4 = d3 - 365 * n1
      in (400 * n400 + 100 * n100 + 4 * n4 + n1 + 1, nat d4))"

definition month_day :: "bool \<Rightarrow> nat \<Rightarrow> nat \<times> nat" where
  "month_day leap yday =
     (if leap \<and> yday = 31 + 29 - 1 then (2, 29)
      else
        let day = (if leap \<and> yday > 31 + 29 - 1 then yday - 1 else yday);
            month = day div 31;
            end' = daysBefore ! (month + 1);
            (month, begin) = (if day \<ge> end' then (month + 1, end') else (month, daysBefore ! month))
        in (month + 1, day - begin + 1))"

record Fields =
  year :: int
  month :: nat
  day :: nat
  hour :: nat
  minute :: nat
  second :: nat

definition UTC_Fields :: "Time \<Rightarrow> Fields" where
  "UTC_Fields t =
     (let s = Time_abs t - 9223372028715321600;
          (y, yday) = absDate (s div 86400);
          (m, d) = month_day (isLeap y) yday;
          c = nat (s mod 86400)
      in \<lparr>year = y, month = m, day = d,
          hour = c div 3600, minute = c mod 3600 div 60, second = c mod 60\<rparr>)"

text \<open>
  The layout codes built from digits that \<^verbatim>\<open>nextStdChunk\<close> recognises; every other
  byte of a layout is copied. (The codes made of letters, signs and fractions do not
  occur in the layouts of this program.)
\<close>

datatype std =
    stdLongYear | stdYear
  | stdZeroMonth | stdNumMonth
  | stdZeroDay | stdDay
  | stdHour | stdZeroHour12 | stdHour12
  | stdZeroMinute | stdMinute
  | stdZeroSecond | stdSecond
  | Literal char

function layout_chunks :: "string \<Rightarrow> std list" where
  "layout_chunks s =
     (if s = [] then []
      else if take 2 s = ''01'' then stdZeroMonth # layout_chunks (drop 2 s)
      else if take 2 s = ''02'' then stdZeroDay # layout_chunks (drop 2 s)
      else if take 2 s = ''03'' then stdZeroHour12 # layout_chunks (drop 2 s)
      else if take 2 s = ''04'' then stdZeroMinute # layout_chunks (drop 2 s)
      else if take 2 s = ''05'' then stdZeroSecond # layout_chunks (drop 2 s)
      else if take 2 s = ''06'' then stdYear # layout_chunks (drop 2 s)
      else if take 2 s = ''15'' then stdHour # layout_chunks (drop 2 s)
      else if take 1 s = ''1'' then stdNumMonth # layout_chunks (drop 1 s)
      else if take 4 s = ''2006'' then stdLongYear # layout_chunks (drop 4 s)
      else if take 1 s = ''2'' then stdDay # layout_chunks (drop 1 s)
      else if take 1 s = ''3'' then stdHour12 # layout_chunks (drop 1 s)
      else if take 1 s = ''4'' then stdMinute # layout_chunks (drop 1 s)
      else if take 1 s = ''5'' then stdSecond # layout_chunks (drop 1 s)
      else Literal (hd s) # layout_chunks (tl s))"
  by pat_completeness auto
termination
  by (relation "measure length") (auto simp: neq_Nil_conv)

declare layout_chunks.simps [simp del]

function digits_of :: "nat \<Rightarrow> string" where
  "digits_of n =
     (if n < 10 then [char_of (48 + n)] else digits_of (n div 10) @ [char_of (48 + n mod 10)])"
  by pat_completeness auto
termination
  by (relation "measure id") auto

declare digits_of.simps [simp del]

text \<open>\<^verbatim>\<open>appendInt(b, x, width)\<close>: the sign, then the decimal digits padded with zeros.\<close>

definition appendInt :: "int \<Rightarrow> nat \<Rightarrow> string" where
  "appendInt x width =
     (let ds = digits_of (nat \<bar>x\<bar>)
      in (if x < 0 then ''-'' else []) @ replicate (width - length ds) CHR ''0'' @ ds)"

definition hour12 :: "nat \<Rightarrow> nat" where
  "hour12 h = (if h mod 12 = 0 then 12 else h mod 12)"

fun append_std :: "Fields \<Rightarrow> std \<Rightarrow> string" where
  "append_std f stdLongYear = appendInt (year f) 4"
| "append_std f stdYear = appendInt (\<bar>year f\<bar> mod 100) 2"
| "append_std f stdZeroMonth = appendInt (int (month f)) 2"
| "append_std f stdNumMonth = appendInt (int (month f)) 0"
| "append_std f stdZeroDay = appendInt (int (day f)) 2"
| "append_std f stdDay = appendInt (int (day f)) 0"
| "append_std f stdHour = appendInt (int (hour f)) 2"
| "append_std f stdZeroHour12 = appendInt (int (hour12 (hour f))) 2"
| "append_std f stdHour12 = appendInt (int (hour12 (hour f))) 0"
| "append_std f stdZeroMinute = appendInt (int (minute f)) 2"
| "append_std f stdMinute = appendInt (int (minute f)) 0"
| "append_std f stdZeroSecond = appendInt (int (second f)) 2"
| "append_std f stdSecond = appendInt (int (second f)) 0"
| "append_std f (Literal c) = [c]"

text \<open>\<^verbatim>\<open>t.UTC().Format(layout)\<close>.\<close>

definition UTC_Format :: "Time \<Rightarrow> string \<Rightarrow> string" where
  "UTC_Format t layout = concat (map (append_std (UTC_Fields t)) (layout_chunks layout))"

section \<open>Report.Format\<close>

text \<open>The constant of \<open>Format\<close>.\<close>

definition DATEFMT :: string where
  "DATEFMT = ''2006-01-02 03:04:05''"

text \<open>
  One data line, as the twelve values handed to \<^verbatim>\<open>fmt.Printf\<close> in the order of the
  format string; the padding of each column to its width is layout and is left out.
\<close>

record Line =
  col_DateBegin :: string
  col_DateEnd :: string
  col_Organization :: string
  col_Domain :: string
  col_HeaderFrom :: string
  col_Passed :: int64
  col_Quaran :: int64
  col_Reject :: int64
  col_SPF_P :: int64
  col_DKIM_P :: int64
  col_SPF_F :: int64
  col_DKIM_F :: int64

definition Format_row :: "Report \<Rightarrow> ReportRow \<Rightarrow> Line" where
  "Format_row r row =
     \<lparr>col_DateBegin = UTC_Format (DateBegin r) DATEFMT,
      col_DateEnd = UTC_Format (DateEnd r) DATEFMT,
      col_Organization = Report.Organization r,
      col_Domain = Report.Domain r,
      col_HeaderFrom = ReportRow.HeaderFrom row,
      col_Passed = PolicyNone row,
      col_Quaran = PolicyQuarantine row,
      col_Reject = PolicyReject row,
      col_SPF_P = SPFPass row,
      col_DKIM_P = DKIMPass row,
      col_SPF_F = SPFFail row,
      col_DKIM_F = DKIMFail row\<rparr>"

text \<open>
  \<^verbatim>\<open>for _, row := range r.Domains\<close> visits every key of the map once, in an order the
  runtime chooses: the order is a parameter, a list \<open>ks\<close> with \<open>iteration_order\<close>.
\<close>

definition iteration_order :: "('k \<rightharpoonup> 'v) \<Rightarrow> 'k list \<Rightarrow> bool" where
  "iteration_order m ks \<longleftrightarrow> distinct ks \<and> set ks = dom m"

definition Report_Format :: "Report \<Rightarrow> string list \<Rightarrow> Line list" where
  "Report_Format r ks =
     concat (map (\<lambda>k. case Domains r k of None \<Rightarrow> [] | Some row \<Rightarrow> [Format_row r row]) ks)"

section \<open>Sorting and main\<close>

definition ByOrganization_Less :: "Report \<Rightarrow> Report \<Rightarrow> bool" where
  "ByOrganization_Less a b =
     (if Report.Organization a = Report.Organization b then Before (DateBegin a) (DateBegin b)
      else Report.Organization a < Report.Organization b)"

definition ByDomain_Less :: "Report \<Rightarrow> Report \<Rightarrow> bool" where
  "ByDomain_Less a b =
     (if Report.Domain a = Report.Domain b then Before (DateBegin a) (DateBegin b)
      else Report.Domain a < Report.Domain b)"

definition ByDate_Less :: "Report \<Rightarrow> Report \<Rightarrow> bool" where
  "ByDate_Less a b =
     (if Equal (DateBegin a) (DateBegin b) then Report.Organization a < Report.Organization b
      else Before (DateBegin a) (DateBegin b))"

text \<open>
  \<^verbatim>\<open>sort.Sort\<close> is the library's. For up to 12 elements it is the library's
  \<^verbatim>\<open>insertionSort\<close>: each element in turn is swapped with the element on its left as
  long as \<open>Less\<close> puts it before that element. In \<open>insert_back\<close> the elements already
  in order are kept in reverse, so that the head of the list is the left neighbour.
  For longer sequences the library's algorithm may differ from this one in the order
  of elements of which neither is less than the other, and in nothing else.
\<close>

fun insert_back :: "('a \<Rightarrow> 'a \<Rightarrow> bool) \<Rightarrow> 'a \<Rightarrow> 'a list \<Rightarrow> 'a list" where
  "insert_back lt x [] = [x]"
| "insert_back lt x (p # ps) = (if lt x p then p # insert_back lt x ps else x # p # ps)"

definition Sort :: "('a \<Rightarrow> 'a \<Rightarrow> bool) \<Rightarrow> 'a list \<Rightarrow> 'a list" where
  "Sort lt xs = rev (foldl (\<lambda>ps x. insert_back lt x ps) [] xs)"

text \<open>The switch on \<^verbatim>\<open>*sortOrder\<close> in the collecting goroutine.\<close>

definition sort_reports :: "string \<Rightarrow> Report list \<Rightarrow> error + Report list" where
  "sort_reports sortOrder reports =
     (if sortOrder = ''date'' then Inr (Sort ByDate_Less reports)
      else if sortOrder = ''domain'' then Inr (Sort ByDomain_Less reports)
      else if sortOrder = ''organization'' then Inr (Sort ByOrganization_Less reports)
      else Inl (UnknownSortOption sortOrder))"

text \<open>
  The parsing goroutines, one for each stream: each sends its report to the channel, and
  a \<^verbatim>\<open>log.Fatal\<close> in any of them ends the process. The reports are collected here in the
  order of the streams; the order of arrival is the scheduler's.
\<close>

fun ingest :: "stream list \<Rightarrow> error + Report list" where
  "ingest [] = Inr []"
| "ingest (s # ss) =
     (case parse s of
        Inl e \<Rightarrow> Inl e
      | Inr r \<Rightarrow> (case ingest ss of Inl e \<Rightarrow> Inl e | Inr rs \<Rightarrow> Inr (r # rs)))"

text \<open>
  \<open>main\<close>: the collecting goroutine leaves its loop over the channel when the channel is
  closed, which \<open>main\<close> does after \<^verbatim>\<open>wg.Wait()\<close>; only then does it look at the sort
  option, sort, and print. The result is the sequence of reports in the order in which
  \<open>Format\<close> is called on them.
\<close>

definition main :: "string \<Rightarrow> stream list \<Rightarrow> error + Report list" where
  "main sortOrder streams =
     (case ingest streams of
        Inl e \<Rightarrow> Inl e
      | Inr reports \<Rightarrow> sort_reports sortOrder reports)"

section \<open>Auxiliary definitions for the properties\<close>

text \<open>The row that \<open>Add\<close> stores for a record with valid tokens, written out field by field.\<close>

definition added_row :: "AggregateReportRecord \<Rightarrow> ReportRow \<Rightarrow> ReportRow" where
  "added_row rec old =
     \<lparr>ReportRow.HeaderFrom = ReportRow.HeaderFrom old,
      DKIMPass = DKIMPass old + (if EvalDKIM rec = ''pass'' then Count rec else 0),
      DKIMFail = DKIMFail old + (if EvalDKIM rec = ''fail'' then Count rec else 0),
      SPFPass = SPFPass old + (if EvalSPF rec = ''pass'' then Count rec else 0),
      SPFFail = SPFFail old + (if EvalSPF rec = ''fail'' then Count rec else 0),
      PolicyNone = PolicyNone old + (if Disposition rec = ''none'' then Count rec else 0),
      PolicyQuarantine =
        PolicyQuarantine old + (if Disposition rec = ''quarantine'' then Count rec else 0),
      PolicyReject = PolicyReject old + (if Disposition rec = ''reject'' then Count rec else 0)\<rparr>"

text \<open>The sum of the three disposition counters of a row, and of all rows of a report.\<close>

definition dispositions :: "ReportRow \<Rightarrow> int64" where
  "dispositions row = PolicyNone row + PolicyQuarantine row + PolicyReject row"

definition total_dispositions :: "Report \<Rightarrow> int64" where
  "total_dispositions r = (\<Sum>d \<in> dom (Domains r). dispositions (lookup_row (Domains r) d))"

text \<open>The same sums over the integers that the counters stand for.\<close>

definition dispositions_int :: "ReportRow \<Rightarrow> int" where
  "dispositions_int row = sint (PolicyNone row) + sint (PolicyQuarantine row) + sint (PolicyReject row)"

definition total_dispositions_int :: "Report \<Rightarrow> int" where
  "total_dispositions_int r =
     (\<Sum>d \<in> dom (Domains r). dispositions_int (lookup_row (Domains r) d))"

text \<open>
  The counts of a list of records summed over the integers; the records of a document
  that carry a given destination domain, and those that carry a given destination
  domain and disposition: the records that \<open>Add\<close> counts in one row, and in one
  disposition counter of that row.
\<close>

definition counts_int :: "AggregateReportRecord list \<Rightarrow> int" where
  "counts_int recs = (\<Sum>rec \<leftarrow> recs. sint (Count rec))"

definition records_of :: "string \<Rightarrow> AggregateReportRecord list \<Rightarrow> AggregateReportRecord list" where
  "records_of d recs = filter (\<lambda>rec. AggregateReportRecord.HeaderFrom rec = d) recs"

definition records_with ::
  "string \<Rightarrow> string \<Rightarrow> AggregateReportRecord list \<Rightarrow> AggregateReportRecord list" where
  "records_with d t recs =
     filter (\<lambda>rec. AggregateReportRecord.HeaderFrom rec = d \<and> Disposition rec = t) recs"

text \<open>
  The integers that an \<^verbatim>\<open>int64\<close> holds, and the documents in which no disposition
  counter leaves them: for each destination domain and each disposition, the counts of
  the records with that domain and disposition sum to an \<^verbatim>\<open>int64\<close>.
\<close>

definition int64_range :: "int \<Rightarrow> bool" where
  "int64_range v \<longleftrightarrow> - (2 ^ 63) \<le> v \<and> v < 2 ^ 63"

definition counts_in_range :: "AggregateReportRecord list \<Rightarrow> bool" where
  "counts_in_range recs \<longleftrightarrow>
     (\<forall>d \<in> AggregateReportRecord.HeaderFrom ` set recs.
        \<forall>t \<in> {''none'', ''quarantine'', ''reject''}.
          int64_range (counts_int (records_with d t recs)))"

text \<open>
  The scenario of the specification: organization Google, date range 1700000000 to
  1700003600, records for the destination domain example.com.
\<close>

definition example_record :: "int64 \<Rightarrow> string \<Rightarrow> string \<Rightarrow> string \<Rightarrow> AggregateReportRecord" where
  "example_record c d k s =
     \<lparr>SourceIP = ''192.0.2.1'', AggregateReportRecord.HeaderFrom = ''example.com'', Count = c,
      Disposition = d, EvalDKIM = k, EvalSPF = s\<rparr>"

definition example_document :: "AggregateReportRecord list \<Rightarrow> AggregateReport" where
  "example_document recs =
     \<lparr>AggregateReport.Organization = ''Google'', Email = ''noreply@google.com'', ReportID = ''1'',
      DateRangeBegin = ''1700000000'', DateRangeEnd = ''1700003600'',
      AggregateReport.Domain = ''example.com'', AlignDKIM = ''r'', AlignSPF = ''r'',
      Policy = ''none'', SubdomainPolicy = ''none'', Percentage = 100, Records = recs\<rparr>"

definition example_report :: Report where
  "example_report =
     (new_Report (example_document []))
       \<lparr>Domains := [''example.com'' \<mapsto>
          \<lparr>ReportRow.HeaderFrom = ''example.com'', DKIMPass = 10, DKIMFail = 5, SPFPass = 10,
           SPFFail = 5, PolicyNone = 10, PolicyQuarantine = 0, PolicyReject = 5\<rparr>]\<rparr>"

text \<open>The seven counters of a row, in the order of the columns.\<close>

definition counters :: "ReportRow \<Rightarrow> int64 list" where
  "counters row =
     [PolicyNone row, PolicyQuarantine row, PolicyReject row,
      SPFPass row, DKIMPass row, SPFFail row, DKIMFail row]"




definition example_overflowed :: Report where
  "example_overflowed =
     (new_Report (example_document []))
       \<lparr>Domains := [''example.com'' \<mapsto>
          \<lparr>ReportRow.HeaderFrom = ''example.com'', DKIMPass = 9223372036854775808,
           DKIMFail = 0, SPFPass = 9223372036854775808, SPFFail = 0,
           PolicyNone = 9223372036854775808, PolicyQuarantine = 0, PolicyReject = 0\<rparr>]\<rparr>"


text \<open>A collected report with no rows, for the sorting examples.\<close>

definition example_dated :: "int64 \<Rightarrow> string \<Rightarrow> string \<Rightarrow> Report" where
  "example_dated t org pd =
     \<lparr>DateBegin = Unix t, DateEnd = Unix (t + 86400), Domains = Map.empty,
      Organization = org, Domain = pd\<rparr>"

text \<open>
  Numeric text, in the words of the specification: an optional sign followed by one or
  more decimal digits, and the integer it denotes. \<open>decimal n s\<close> continues the
  number \<open>n\<close> with the digits \<open>s\<close>.
\<close>

definition numeral_body :: "string \<Rightarrow> string" where
  "numeral_body s = (if s \<noteq> [] \<and> (hd s = CHR ''+'' \<or> hd s = CHR ''-'') then tl s else s)"

definition is_numeral :: "string \<Rightarrow> bool" where
  "is_numeral s \<longleftrightarrow> numeral_body s \<noteq> [] \<and> list_all is_digit (numeral_body s)"

definition decimal :: "int \<Rightarrow> string \<Rightarrow> int" where
  "decimal n s = foldl (\<lambda>n c. n * 10 + digit_val c) n s"

definition numeral_value :: "string \<Rightarrow> int" where
  "numeral_value s =
     (if s \<noteq> [] \<and> hd s = CHR ''-'' then - decimal 0 (numeral_body s)
      else decimal 0 (numeral_body s))"

text \<open>The document of the scenario with other texts in its two date fields.\<close>

definition example_dates :: "string \<Rightarrow> string \<Rightarrow> AggregateReport" where
  "example_dates b e = (example_document [])\<lparr>DateRangeBegin := b, DateRangeEnd := e\<rparr>"

text \<open>
  The format of the specification, \<^verbatim>\<open>YYYY-MM-DD HH:MM:SS\<close>, as a text of 19 bytes: the
  fields in decimal digits of fixed width, with the hour \<open>h\<close> given apart, so that it
  can be the hour of the 24-hour clock or that of the 12-hour clock.
\<close>

definition two_digits :: "nat \<Rightarrow> string" where
  "two_digits n = [char_of (48 + n div 10), char_of (48 + n mod 10)]"

definition four_digits :: "nat \<Rightarrow> string" where
  "four_digits n =
     [char_of (48 + n div 1000), char_of (48 + n div 100 mod 10),
      char_of (48 + n div 10 mod 10), char_of (48 + n mod 10)]"

definition timestamp_text :: "Fields \<Rightarrow> nat \<Rightarrow> string" where
  "timestamp_text f h =
     four_digits (nat (year f)) @ ''-'' @ two_digits (month f) @ ''-'' @ two_digits (day f) @
     '' '' @ two_digits h @ '':'' @ two_digits (minute f) @ '':'' @ two_digits (second f)"

text \<open>
  The proleptic Gregorian calendar, in the direction from a date to the day number:
  \<open>days_before_year y\<close> is the number of days from January 1, 1970 to January 1 of year
  \<open>y\<close> (365 for every year and one more for every leap year), \<open>days_from_civil\<close> the
  number of days to a day of a month of that year, \<open>civil_seconds\<close> the number of
  seconds to a second of that day.
\<close>

definition days_before_year :: "int \<Rightarrow> int" where
  "days_before_year y =
     365 * (y - 1) + (y - 1) div 4 - (y - 1) div 100 + (y - 1) div 400 - 719162"

definition days_from_civil :: "int \<Rightarrow> nat \<Rightarrow> nat \<Rightarrow> int" where
  "days_from_civil y m d =
     days_before_year y + int (daysBefore ! (m - 1)) + (if isLeap y \<and> 2 < m then 1 else 0) +
     int d - 1"

definition days_in_month :: "int \<Rightarrow> nat \<Rightarrow> nat" where
  "days_in_month y m =
     daysBefore ! m - daysBefore ! (m - 1) + (if isLeap y \<and> m = 2 then 1 else 0)"

definition civil_seconds :: "Fields \<Rightarrow> int" where
  "civil_seconds f =
     days_from_civil (year f) (month f) (day f) * 86400 +
     int (hour f) * 3600 + int (minute f) * 60 + int (second f)"

definition valid_fields :: "Fields \<Rightarrow> bool" where
  "valid_fields f \<longleftrightarrow>
     1 \<le> month f \<and> month f \<le> 12 \<and> 1 \<le> day f \<and> day f \<le> days_in_month (year f) (month f) \<and>
     hour f < 24 \<and> minute f < 60 \<and> second f < 60"

text \<open>
  The variable \<^verbatim>\<open>DATEFMT\<close> of the earlier revision of \<open>main\<close>, which has a flag
  \<^verbatim>\<open>-H\<close>, "Set 24-hour time format": the layout of the 12-hour clock unless the flag is
  given.
\<close>

definition DATEFMT_flag :: "bool \<Rightarrow> string" where
  "DATEFMT_flag H = (if H then ''2006-01-02 15:04:05'' else ''2006-01-02 03:04:05'')"

section \<open>Properties of Report.Add\<close>

lemma lookup_row_upd [simp]:
  "lookup_row (m(h \<mapsto> row)) d = (if d = h then row else lookup_row m d)"
  by (simp add: lookup_row_def)

lemma Report_Add_valid:
  "valid_tokens rec \<Longrightarrow>
   Report_Add r rec =
     Inr (r\<lparr>Domains := (Domains r)(AggregateReportRecord.HeaderFrom rec \<mapsto>
           added_row rec (lookup_row (Domains r) (AggregateReportRecord.HeaderFrom rec)))\<rparr>)"
  by (cases "lookup_row (Domains r) (AggregateReportRecord.HeaderFrom rec)")
    (auto simp: valid_tokens_def Report_Add_def add_Disposition_def add_EvalDKIM_def
      add_EvalSPF_def added_row_def Let_def)

lemma Report_Add_invalid:
  "\<not> valid_tokens rec \<Longrightarrow> \<exists>e. Report_Add r rec = Inl e"
  by (auto simp: valid_tokens_def Report_Add_def add_Disposition_def add_EvalDKIM_def
      add_EvalSPF_def Let_def)

lemma Report_Add_Inr_iff:
  "(\<exists>r'. Report_Add r rec = Inr r') \<longleftrightarrow> valid_tokens rec"
  using Report_Add_valid [of rec r] Report_Add_invalid [of rec r] by (cases "valid_tokens rec") auto

lemma example_report_reached:
  "Add_all (new_Report (example_document []))
     [example_record 10 ''none'' ''pass'' ''pass'', example_record 5 ''reject'' ''fail'' ''fail'']
   = Inr example_report"
  by (simp add: Report_Add_def add_Disposition_def add_EvalDKIM_def add_EvalSPF_def
      lookup_row_def new_ReportRow_def example_record_def example_report_def new_Report_def
      Let_def)



section \<open>Failure of the aggregation\<close>

lemma Add_all_Inl_iff:
  "(\<exists>e. Add_all r recs = Inl e) \<longleftrightarrow> (\<exists>rec \<in> set recs. \<not> valid_tokens rec)"
proof (induction recs arbitrary: r)
  case Nil
  show ?case by simp
next
  case (Cons rec recs)
  show ?case
  proof (cases "valid_tokens rec")
    case True
    then show ?thesis
      using Cons.IH by (simp add: Report_Add_valid)
  next
    case False
    then obtain e where "Report_Add r rec = Inl e"
      using Report_Add_invalid by blast
    with False show ?thesis by auto
  qed
qed

lemma ingest_fails:
  "Some fb \<in> set streams \<Longrightarrow> aggregate fb = Inl e \<Longrightarrow> \<exists>e'. ingest streams = Inl e'"
proof (induction streams)
  case Nil
  then show ?case by simp
next
  case (Cons s ss)
  show ?case
  proof (cases "s = Some fb")
    case True
    with Cons.prems show ?thesis by (simp add: parse_def)
  next
    case False
    with Cons obtain e' where "ingest ss = Inl e'" by auto
    then show ?thesis by (auto split: sum.splits)
  qed
qed

text \<open>
  C4. The aggregation of a document fails if and only if one of its records has a
  disposition outside none, quarantine, reject, or a DKIM or SPF result outside pass,
  fail. A run that has such a document among its streams fails as a whole, and a
  document whose tokens are all valid never fails.
\<close>

theorem aggregate_fails_iff:
  "((\<exists>e. aggregate fb = Inl e) \<longleftrightarrow> (\<exists>rec \<in> set (Records fb). \<not> valid_tokens rec)) \<and>
   ((\<exists>rec \<in> set (Records fb). \<not> valid_tokens rec) \<and> Some fb \<in> set streams \<longrightarrow>
      (\<exists>e. main sortOrder streams = Inl e)) \<and>
   ((\<forall>rec \<in> set (Records fb). valid_tokens rec) \<longrightarrow> (\<exists>r. aggregate fb = Inr r))"
proof -
  have iff: "(\<exists>e. aggregate fb = Inl e) \<longleftrightarrow> (\<exists>rec \<in> set (Records fb). \<not> valid_tokens rec)"
    unfolding aggregate_def by (rule Add_all_Inl_iff)
  have run: "\<exists>e. main sortOrder streams = Inl e"
    if "\<exists>rec \<in> set (Records fb). \<not> valid_tokens rec" "Some fb \<in> set streams"
  proof -
    from that(1) iff obtain e where "aggregate fb = Inl e" by blast
    with that(2) obtain e' where "ingest streams = Inl e'"
      using ingest_fails by blast
    then show ?thesis by (simp add: main_def)
  qed
  have ok: "\<exists>r. aggregate fb = Inr r" if "\<forall>rec \<in> set (Records fb). valid_tokens rec"
  proof (cases "aggregate fb")
    case (Inl e)
    with iff that show ?thesis by blast
  next
    case (Inr r)
    then show ?thesis by blast
  qed
  from iff run ok show ?thesis by blast
qed

theorem aggregate_fails_iff_witness:
  "(\<exists>e. aggregate (example_document [example_record 1 ''foo'' ''pass'' ''pass'']) = Inl e) \<and>
   (\<exists>e. main ''date'' [Some (example_document [example_record 1 ''foo'' ''pass'' ''pass''])] = Inl e) \<and>
   (\<exists>r. aggregate (example_document [example_record 10 ''none'' ''pass'' ''pass'']) = Inr r)"
  using aggregate_fails_iff [of "example_document [example_record 1 ''foo'' ''pass'' ''pass'']"
      "[Some (example_document [example_record 1 ''foo'' ''pass'' ''pass''])]" "''date''"]
    aggregate_fails_iff [of "example_document [example_record 10 ''none'' ''pass'' ''pass'']"]
  by (simp add: example_document_def example_record_def valid_tokens_def)

section \<open>Documents without records\<close>

text \<open>
  C8. A document with no records is aggregated to a report whose map of destination
  domains is empty: it has no key at all. \<open>Format\<close> then prints no data line for it,
  whatever the order of iteration.
\<close>

theorem aggregate_no_records:
  assumes "Records fb = []"
  shows "\<exists>r. aggregate fb = Inr r \<and> Domains r = Map.empty \<and> dom (Domains r) = {} \<and>
    (\<forall>ks. Report_Format r ks = [])"
proof -
  have "Report_Format (new_Report fb) ks = []" for ks
    by (induction ks) (simp_all add: Report_Format_def new_Report_def)
  then show ?thesis
    using assms by (simp add: aggregate_def new_Report_def)
qed

theorem aggregate_no_records_witness:
  "\<exists>r. aggregate (example_document []) = Inr r \<and> Domains r = Map.empty \<and>
    Report_Format r [''example.com''] = []"
  using aggregate_no_records [of "example_document []"]
  by (auto simp: example_document_def)

section \<open>Rows are stored under their own HeaderFrom\<close>

lemma added_row_HeaderFrom [simp]:
  "ReportRow.HeaderFrom (added_row rec old) = ReportRow.HeaderFrom old"
  by (simp add: added_row_def)

lemma lookup_row_HeaderFrom:
  "\<forall>d row. m d = Some row \<longrightarrow> ReportRow.HeaderFrom row = d \<Longrightarrow>
   ReportRow.HeaderFrom (lookup_row m h) = h"
  by (cases "m h") (simp_all add: lookup_row_def new_ReportRow_def)

lemma Report_Add_keys:
  assumes "Report_Add r rec = Inr r'"
    and "\<forall>d row. Domains r d = Some row \<longrightarrow> ReportRow.HeaderFrom row = d"
  shows "\<forall>d row. Domains r' d = Some row \<longrightarrow> ReportRow.HeaderFrom row = d"
proof (intro allI impI)
  fix d row
  assume row: "Domains r' d = Some row"
  from assms(1) have v: "valid_tokens rec"
    using Report_Add_Inr_iff by blast
  let ?h = "AggregateReportRecord.HeaderFrom rec"
  from assms(1) have r': "Domains r' = (Domains r)(?h \<mapsto> added_row rec (lookup_row (Domains r) ?h))"
    unfolding Report_Add_valid [OF v] by auto
  show "ReportRow.HeaderFrom row = d"
  proof (cases "d = ?h")
    case True
    with row r' have "row = added_row rec (lookup_row (Domains r) ?h)" by simp
    then show ?thesis
      using True lookup_row_HeaderFrom [OF assms(2)] by simp
  next
    case False
    with row r' assms(2) show ?thesis by simp
  qed
qed

lemma Add_all_keys:
  "Add_all r recs = Inr r' \<Longrightarrow>
   \<forall>d row. Domains r d = Some row \<longrightarrow> ReportRow.HeaderFrom row = d \<Longrightarrow>
   \<forall>d row. Domains r' d = Some row \<longrightarrow> ReportRow.HeaderFrom row = d"
proof (induction recs arbitrary: r)
  case Nil
  then show ?case by simp
next
  case (Cons rec recs)
  from Cons.prems(1) obtain r1 where r1: "Report_Add r rec = Inr r1" "Add_all r1 recs = Inr r'"
    by (auto split: sum.splits)
  from Report_Add_keys [OF r1(1) Cons.prems(2)] Cons.IH [OF r1(2)] show ?case by blast
qed

lemma Report_Format_keys:
  assumes "\<forall>d row. Domains r d = Some row \<longrightarrow> ReportRow.HeaderFrom row = d"
    and "set ks \<subseteq> dom (Domains r)"
  shows "map col_HeaderFrom (Report_Format r ks) = ks"
  using assms(2)
proof (induction ks)
  case Nil
  show ?case by (simp add: Report_Format_def)
next
  case (Cons k ks)
  then obtain row where row: "Domains r k = Some row" by auto
  with assms(1) have "ReportRow.HeaderFrom row = k" by blast
  with Cons row show ?case
    by (simp add: Report_Format_def Format_row_def)
qed

text \<open>
  C10. In every report reached from an empty map by a sequence of calls of \<open>Add\<close>, the
  row stored under a key \<open>d\<close> has \<open>HeaderFrom = d\<close>. So the HeaderFrom column that
  \<open>Format\<close> prints for a row is the key under which the counts of the row were added:
  the column, read down the lines of a report, is the sequence of keys in the order of
  iteration.
\<close>

theorem reachable_rows_keyed:
  assumes "Domains r0 = Map.empty" and "Add_all r0 recs = Inr r"
  shows "(\<forall>d row. Domains r d = Some row \<longrightarrow>
            ReportRow.HeaderFrom row = d \<and> col_HeaderFrom (Format_row r row) = d) \<and>
         (\<forall>ks. iteration_order (Domains r) ks \<longrightarrow>
            map col_HeaderFrom (Report_Format r ks) = ks)"
proof -
  have inv: "\<forall>d row. Domains r d = Some row \<longrightarrow> ReportRow.HeaderFrom row = d"
    using Add_all_keys [OF assms(2)] assms(1) by simp
  then show ?thesis
    using Report_Format_keys [OF inv]
    by (simp add: Format_row_def iteration_order_def)
qed

theorem reachable_rows_keyed_witness:
  "Domains (new_Report (example_document [])) = Map.empty \<and>
   Add_all (new_Report (example_document []))
     [example_record 10 ''none'' ''pass'' ''pass'', example_record 5 ''reject'' ''fail'' ''fail'']
   = Inr example_report \<and>
   Domains example_report ''example.com'' \<noteq> None \<and>
   iteration_order (Domains example_report) [''example.com''] \<and>
   map col_HeaderFrom (Report_Format example_report [''example.com'']) = [''example.com'']"
proof -
  have e: "Domains (new_Report (example_document [])) = Map.empty"
    by (simp add: new_Report_def)
  have i: "iteration_order (Domains example_report) [''example.com'']"
    by (simp add: iteration_order_def example_report_def)
  have d: "Domains example_report ''example.com'' \<noteq> None"
    by (simp add: example_report_def)
  from reachable_rows_keyed [OF e example_report_reached] e i d example_report_reached
  show ?thesis by blast
qed

section \<open>Sums of the disposition counters\<close>

lemmas Report_Add_unfold =
  Report_Add_def add_Disposition_def add_EvalDKIM_def add_EvalSPF_def
  lookup_row_def new_ReportRow_def Let_def

lemma dispositions_added_row:
  "valid_tokens rec \<Longrightarrow> dispositions (added_row rec old) = dispositions old + Count rec"
  by (auto simp: dispositions_def added_row_def valid_tokens_def)

lemma dispositions_new [simp]: "dispositions (new_ReportRow h) = 0"
  by (simp add: dispositions_def new_ReportRow_def)

lemma total_dispositions_Add:
  assumes "Report_Add r rec = Inr r'" and fin: "finite (dom (Domains r))"
  shows "total_dispositions r' = total_dispositions r + Count rec \<and> finite (dom (Domains r'))"
proof -
  from assms(1) have v: "valid_tokens rec"
    using Report_Add_Inr_iff by blast
  let ?h = "AggregateReportRecord.HeaderFrom rec"
  let ?m = "Domains r"
  let ?new = "added_row rec (lookup_row ?m ?h)"
  from assms(1) have r': "Domains r' = ?m(?h \<mapsto> ?new)"
    unfolding Report_Add_valid [OF v] by auto
  have rest: "(\<Sum>d \<in> dom ?m - {?h}. dispositions (lookup_row (?m(?h \<mapsto> ?new)) d)) =
              (\<Sum>d \<in> dom ?m - {?h}. dispositions (lookup_row ?m d))"
    by (rule sum.cong) auto
  have old: "(\<Sum>d \<in> dom ?m. dispositions (lookup_row ?m d)) =
             dispositions (lookup_row ?m ?h) + (\<Sum>d \<in> dom ?m - {?h}. dispositions (lookup_row ?m d))"
  proof (cases "?h \<in> dom ?m")
    case True
    with fin show ?thesis by (simp add: sum.remove)
  next
    case False
    then have "lookup_row ?m ?h = new_ReportRow ?h"
      by (auto simp: lookup_row_def split: option.splits)
    with False show ?thesis by simp
  qed
  have "total_dispositions r' =
          (\<Sum>d \<in> insert ?h (dom ?m). dispositions (lookup_row (?m(?h \<mapsto> ?new)) d))"
    by (simp add: total_dispositions_def r')
  also have "\<dots> = dispositions ?new +
          (\<Sum>d \<in> dom ?m - {?h}. dispositions (lookup_row (?m(?h \<mapsto> ?new)) d))"
    using fin by (simp add: sum.insert_remove)
  also have "\<dots> = dispositions (lookup_row ?m ?h) + Count rec +
          (\<Sum>d \<in> dom ?m - {?h}. dispositions (lookup_row ?m d))"
    by (simp add: rest dispositions_added_row [OF v])
  also have "\<dots> = total_dispositions r + Count rec"
    by (simp add: total_dispositions_def old)
  finally show ?thesis
    using fin by (simp add: r')
qed

lemma total_dispositions_Add_all:
  "Add_all r recs = Inr r' \<Longrightarrow> finite (dom (Domains r)) \<Longrightarrow>
   total_dispositions r' = total_dispositions r + sum_list (map Count recs)"
proof (induction recs arbitrary: r)
  case Nil
  then show ?case by simp
next
  case (Cons rec recs)
  from Cons.prems(1) obtain r1 where r1: "Report_Add r rec = Inr r1" "Add_all r1 recs = Inr r'"
    by (auto split: sum.splits)
  from total_dispositions_Add [OF r1(1) Cons.prems(2)] Cons.IH [OF r1(2)]
  show ?case by simp
qed

lemma row_dispositions_Add_all:
  "Add_all r recs = Inr r' \<Longrightarrow>
   dispositions (lookup_row (Domains r') d) =
     dispositions (lookup_row (Domains r) d) +
     sum_list (map Count (filter (\<lambda>rec. AggregateReportRecord.HeaderFrom rec = d) recs))"
proof (induction recs arbitrary: r)
  case Nil
  then show ?case by simp
next
  case (Cons rec recs)
  from Cons.prems(1) obtain r1 where r1: "Report_Add r rec = Inr r1" "Add_all r1 recs = Inr r'"
    by (auto split: sum.splits)
  from r1(1) have v: "valid_tokens rec"
    using Report_Add_Inr_iff by blast
  from r1(1) have "Domains r1 = (Domains r)(AggregateReportRecord.HeaderFrom rec \<mapsto>
      added_row rec (lookup_row (Domains r) (AggregateReportRecord.HeaderFrom rec)))"
    unfolding Report_Add_valid [OF v] by auto
  then have "dispositions (lookup_row (Domains r1) d) =
      dispositions (lookup_row (Domains r) d) +
      (if AggregateReportRecord.HeaderFrom rec = d then Count rec else 0)"
    by (auto simp: dispositions_added_row [OF v])
  with Cons.IH [OF r1(2)] show ?case by simp
qed

lemma dom_Add_all:
  "Add_all r recs = Inr r' \<Longrightarrow>
   dom (Domains r') = dom (Domains r) \<union> AggregateReportRecord.HeaderFrom ` set recs"
proof (induction recs arbitrary: r)
  case Nil
  then show ?case by simp
next
  case (Cons rec recs)
  from Cons.prems(1) obtain r1 where r1: "Report_Add r rec = Inr r1" "Add_all r1 recs = Inr r'"
    by (auto split: sum.splits)
  from r1(1) have v: "valid_tokens rec"
    using Report_Add_Inr_iff by blast
  from r1(1) have "dom (Domains r1) = insert (AggregateReportRecord.HeaderFrom rec) (dom (Domains r))"
    unfolding Report_Add_valid [OF v] by auto
  with Cons.IH [OF r1(2)] show ?case by auto
qed

lemma word_dispositions_sum:
  assumes "\<forall>rec \<in> set (Records fb). valid_tokens rec"
  shows "\<exists>r. aggregate fb = Inr r \<and>
    (\<Sum>d \<in> dom (Domains r).
        PolicyNone (lookup_row (Domains r) d) + PolicyQuarantine (lookup_row (Domains r) d) +
        PolicyReject (lookup_row (Domains r) d)) = sum_list (map Count (Records fb)) \<and>
    dom (Domains r) = AggregateReportRecord.HeaderFrom ` set (Records fb) \<and>
    (\<forall>d. PolicyNone (lookup_row (Domains r) d) + PolicyQuarantine (lookup_row (Domains r) d) +
        PolicyReject (lookup_row (Domains r) d) =
        sum_list (map Count
          (filter (\<lambda>rec. AggregateReportRecord.HeaderFrom rec = d) (Records fb))))"
proof -
  from assms obtain r where r: "Add_all (new_Report fb) (Records fb) = Inr r"
    using Add_all_Inl_iff [of "new_Report fb" "Records fb"]
    by (cases "Add_all (new_Report fb) (Records fb)") auto
  have empty: "Domains (new_Report fb) = Map.empty"
    by (simp add: new_Report_def)
  have "total_dispositions r = sum_list (map Count (Records fb))"
    using total_dispositions_Add_all [OF r] by (simp add: empty total_dispositions_def)
  moreover have "dom (Domains r) = AggregateReportRecord.HeaderFrom ` set (Records fb)"
    using dom_Add_all [OF r] by (simp add: empty)
  moreover have "dispositions (lookup_row (Domains r) d) =
      sum_list (map Count (filter (\<lambda>rec. AggregateReportRecord.HeaderFrom rec = d) (Records fb)))"
    for d
    using row_dispositions_Add_all [OF r, of d] by (simp add: empty lookup_row_def)
  ultimately show ?thesis
    using r by (simp add: aggregate_def total_dispositions_def dispositions_def)
qed

lemma sint_word_of_int_64:
  "- (2 ^ 63) \<le> v \<Longrightarrow> v < 2 ^ 63 \<Longrightarrow> sint (word_of_int v :: int64) = v"
  by (simp add: signed_of_int signed_take_bit_int_eq_self)

lemma word_of_int_counts_int: "word_of_int (counts_int recs) = sum_list (map Count recs)"
  by (induction recs) (simp_all add: counts_int_def)

lemma sint_sum_list_Count:
  "int64_range (counts_int recs) \<Longrightarrow> sint (sum_list (map Count recs)) = counts_int recs"
  unfolding word_of_int_counts_int [symmetric] int64_range_def
  by (simp add: sint_word_of_int_64)

lemma disposition_counters_Add_all:
  "Add_all r recs = Inr r' \<Longrightarrow>
   PolicyNone (lookup_row (Domains r') d) =
     PolicyNone (lookup_row (Domains r) d) + sum_list (map Count (records_with d ''none'' recs)) \<and>
   PolicyQuarantine (lookup_row (Domains r') d) =
     PolicyQuarantine (lookup_row (Domains r) d) +
     sum_list (map Count (records_with d ''quarantine'' recs)) \<and>
   PolicyReject (lookup_row (Domains r') d) =
     PolicyReject (lookup_row (Domains r) d) + sum_list (map Count (records_with d ''reject'' recs))"
proof (induction recs arbitrary: r)
  case Nil
  then show ?case by (simp add: records_with_def)
next
  case (Cons rec recs)
  from Cons.prems(1) obtain r1 where r1: "Report_Add r rec = Inr r1" "Add_all r1 recs = Inr r'"
    by (auto split: sum.splits)
  from r1(1) have v: "valid_tokens rec"
    using Report_Add_Inr_iff by blast
  let ?h = "AggregateReportRecord.HeaderFrom rec"
  from r1(1) have d1: "Domains r1 = (Domains r)(?h \<mapsto> added_row rec (lookup_row (Domains r) ?h))"
    unfolding Report_Add_valid [OF v] by auto
  have row: "lookup_row (Domains r1) d =
      (if ?h = d then added_row rec (lookup_row (Domains r) d) else lookup_row (Domains r) d)"
    by (auto simp: d1 lookup_row_def)
  have "PolicyNone (lookup_row (Domains r1) d) = PolicyNone (lookup_row (Domains r) d) +
      (if ?h = d \<and> Disposition rec = ''none'' then Count rec else 0)"
    "PolicyQuarantine (lookup_row (Domains r1) d) = PolicyQuarantine (lookup_row (Domains r) d) +
      (if ?h = d \<and> Disposition rec = ''quarantine'' then Count rec else 0)"
    "PolicyReject (lookup_row (Domains r1) d) = PolicyReject (lookup_row (Domains r) d) +
      (if ?h = d \<and> Disposition rec = ''reject'' then Count rec else 0)"
    by (simp_all add: row added_row_def)
  with Cons.IH [OF r1(2)] show ?case
    by (simp add: records_with_def)
qed

lemma counts_int_records_of:
  "\<forall>rec \<in> set recs. valid_tokens rec \<Longrightarrow>
   counts_int (records_of d recs) =
     counts_int (records_with d ''none'' recs) + counts_int (records_with d ''quarantine'' recs) +
     counts_int (records_with d ''reject'' recs)"
  by (induction recs)
    (auto simp: counts_int_def records_of_def records_with_def valid_tokens_def)

lemma counts_int_domains:
  "finite S \<Longrightarrow> AggregateReportRecord.HeaderFrom ` set recs \<subseteq> S \<Longrightarrow>
   (\<Sum>d \<in> S. counts_int (records_of d recs)) = counts_int recs"
proof (induction recs)
  case Nil
  then show ?case by (simp add: counts_int_def records_of_def)
next
  case (Cons rec recs)
  let ?h = "AggregateReportRecord.HeaderFrom rec"
  have step: "counts_int (records_of d (rec # recs)) =
      (if ?h = d then sint (Count rec) else 0) + counts_int (records_of d recs)" for d
    by (simp add: counts_int_def records_of_def)
  have "(\<Sum>d \<in> S. counts_int (records_of d (rec # recs))) =
      (\<Sum>d \<in> S. if ?h = d then sint (Count rec) else 0) +
      (\<Sum>d \<in> S. counts_int (records_of d recs))"
    by (simp add: step sum.distrib)
  also have "(\<Sum>d \<in> S. if ?h = d then sint (Count rec) else 0) = sint (Count rec)"
    using Cons.prems by (simp add: sum.delta')
  also have "(\<Sum>d \<in> S. counts_int (records_of d recs)) = counts_int recs"
    using Cons.IH Cons.prems by simp
  finally show ?case by (simp add: counts_int_def)
qed

lemma counts_int_filter_nonneg:
  "\<forall>rec \<in> set recs. 0 \<le> sint (Count rec) \<Longrightarrow>
   0 \<le> counts_int (filter P recs) \<and> counts_int (filter P recs) \<le> counts_int recs"
  by (induction recs) (auto simp: counts_int_def)

lemma nonneg_counts_in_range:
  assumes "\<forall>rec \<in> set recs. 0 \<le> sint (Count rec)" and "counts_int recs < 2 ^ 63"
  shows "counts_in_range recs"
  using counts_int_filter_nonneg [OF assms(1)] assms(2)
  unfolding counts_in_range_def int64_range_def records_with_def
  by (smt (verit, best))

lemma int_dispositions_sum:
  assumes v: "\<forall>rec \<in> set (Records fb). valid_tokens rec"
    and range: "counts_in_range (Records fb)"
    and r: "aggregate fb = Inr r"
  shows "total_dispositions_int r = counts_int (Records fb) \<and>
    (\<forall>d. dispositions_int (lookup_row (Domains r) d) = counts_int (records_of d (Records fb)))"
proof -
  from r have add: "Add_all (new_Report fb) (Records fb) = Inr r"
    by (simp add: aggregate_def)
  have empty: "Domains (new_Report fb) = Map.empty"
    by (simp add: new_Report_def)
  have d: "dom (Domains r) = AggregateReportRecord.HeaderFrom ` set (Records fb)"
    using dom_Add_all [OF add] by (simp add: empty)
  have in_range: "int64_range (counts_int (records_with d t (Records fb)))"
    if "t \<in> {''none'', ''quarantine'', ''reject''}" for d t
  proof (cases "d \<in> AggregateReportRecord.HeaderFrom ` set (Records fb)")
    case True
    with range that show ?thesis
      unfolding counts_in_range_def by blast
  next
    case False
    then have "records_with d t (Records fb) = []"
      by (auto simp: records_with_def filter_empty_conv)
    then show ?thesis by (simp add: counts_int_def int64_range_def)
  qed
  have counters:
    "sint (PolicyNone (lookup_row (Domains r) d)) = counts_int (records_with d ''none'' (Records fb))"
    "sint (PolicyQuarantine (lookup_row (Domains r) d)) =
       counts_int (records_with d ''quarantine'' (Records fb))"
    "sint (PolicyReject (lookup_row (Domains r) d)) =
       counts_int (records_with d ''reject'' (Records fb))" for d
    using disposition_counters_Add_all [OF add, of d]
      sint_sum_list_Count [OF in_range [of "''none''" d]]
      sint_sum_list_Count [OF in_range [of "''quarantine''" d]]
      sint_sum_list_Count [OF in_range [of "''reject''" d]]
    by (simp_all add: empty lookup_row_def new_ReportRow_def)
  have row: "dispositions_int (lookup_row (Domains r) d) = counts_int (records_of d (Records fb))"
    for d
    by (simp add: dispositions_int_def counters counts_int_records_of [OF v])
  have "total_dispositions_int r =
      (\<Sum>d \<in> AggregateReportRecord.HeaderFrom ` set (Records fb).
         counts_int (records_of d (Records fb)))"
    by (simp add: total_dispositions_int_def d row)
  also have "\<dots> = counts_int (Records fb)"
    by (rule counts_int_domains) simp_all
  finally show ?thesis
    using row by simp
qed

lemma overflowed_reached:
  "aggregate (example_document
     [example_record 9223372036854775807 ''none'' ''pass'' ''pass'',
      example_record 1 ''none'' ''pass'' ''pass'']) = Inr example_overflowed"
proof -
  have "new_Report (example_document
     [example_record 9223372036854775807 ''none'' ''pass'' ''pass'',
      example_record 1 ''none'' ''pass'' ''pass'']) = new_Report (example_document [])"
    by (simp add: new_Report_def example_document_def AggregateReport_DateBegin_def
        AggregateReport_DateEnd_def)
  moreover have "Add_all (new_Report (example_document []))
     [example_record 9223372036854775807 ''none'' ''pass'' ''pass'',
      example_record 1 ''none'' ''pass'' ''pass''] = Inr example_overflowed"
    by (simp add: Report_Add_unfold example_record_def example_overflowed_def new_Report_def)
  ultimately show ?thesis
    by (simp add: aggregate_def example_document_def)
qed

text \<open>
  Against C3 as it is stated. The counters are \<^verbatim>\<open>int64\<close> and \<open>Add\<close> adds to them with
  wrap-around. The document of the scenario with two records for example.com, both with
  valid tokens and disposition none, of counts 9223372036854775807 and 1, is aggregated
  to a report with the single row example.com whose three disposition counters sum to
  \<open>-9223372036854775808\<close>, over all rows and for example.com alike, where the counts of
  the records sum to \<open>9223372036854775808\<close>.
\<close>

theorem dispositions_overflow_counterexample:
  "valid_tokens (example_record 9223372036854775807 ''none'' ''pass'' ''pass'') \<and>
   valid_tokens (example_record 1 ''none'' ''pass'' ''pass'') \<and>
   aggregate (example_document
     [example_record 9223372036854775807 ''none'' ''pass'' ''pass'',
      example_record 1 ''none'' ''pass'' ''pass'']) = Inr example_overflowed \<and>
   dom (Domains example_overflowed) = {''example.com''} \<and>
   total_dispositions_int example_overflowed = - 9223372036854775808 \<and>
   counts_int (Records (example_document
     [example_record 9223372036854775807 ''none'' ''pass'' ''pass'',
      example_record 1 ''none'' ''pass'' ''pass''])) = 9223372036854775808 \<and>
   dispositions_int (lookup_row (Domains example_overflowed) ''example.com'')
     = - 9223372036854775808 \<and>
   counts_int (records_of ''example.com'' (Records (example_document
     [example_record 9223372036854775807 ''none'' ''pass'' ''pass'',
      example_record 1 ''none'' ''pass'' ''pass'']))) = 9223372036854775808"
proof -
  have 1: "valid_tokens (example_record 9223372036854775807 ''none'' ''pass'' ''pass'')"
    "valid_tokens (example_record 1 ''none'' ''pass'' ''pass'')"
    by (simp_all add: valid_tokens_def example_record_def)
  have 2: "dom (Domains example_overflowed) = {''example.com''}"
    by (simp add: example_overflowed_def)
  have 3: "dispositions_int (lookup_row (Domains example_overflowed) ''example.com'')
     = - 9223372036854775808"
    by (simp add: dispositions_int_def lookup_row_def example_overflowed_def)
  have 4: "total_dispositions_int example_overflowed = - 9223372036854775808"
    unfolding total_dispositions_int_def 2 using 3 by simp
  have 5: "counts_int (Records (example_document
     [example_record 9223372036854775807 ''none'' ''pass'' ''pass'',
      example_record 1 ''none'' ''pass'' ''pass''])) = 9223372036854775808"
    by (simp add: counts_int_def example_document_def example_record_def)
  have 6: "counts_int (records_of ''example.com'' (Records (example_document
     [example_record 9223372036854775807 ''none'' ''pass'' ''pass'',
      example_record 1 ''none'' ''pass'' ''pass'']))) = 9223372036854775808"
    by (simp add: counts_int_def records_of_def example_document_def example_record_def)
  from 1 overflowed_reached 2 3 4 5 6 show ?thesis by blast
qed

text \<open>
  C3, amended. When all records of a document carry valid tokens, the aggregation
  succeeds and the rows of the report are those of the destination domains of the
  records. The three disposition counters summed over all rows equal the sum of the
  counts of all records, and for each destination domain the three disposition
  counters of its row sum to the counts of the records of that domain (0 where the
  domain has neither row nor record), in the arithmetic of \<^verbatim>\<open>int64\<close>, that is modulo
  \<open>2 ^ 64\<close>. Both equalities hold over the integers provided that, for each destination
  domain and each disposition, the counts of the records with that domain and
  disposition sum to an integer from \<open>-2 ^ 63\<close> up to \<open>2 ^ 63 - 1\<close>; this is so in
  particular when no count is negative and the counts of all records together stay
  below \<open>2 ^ 63\<close>.
\<close>

theorem dispositions_sum:
  assumes "\<forall>rec \<in> set (Records fb). valid_tokens rec"
  shows "\<exists>r. aggregate fb = Inr r \<and>
    dom (Domains r) = AggregateReportRecord.HeaderFrom ` set (Records fb) \<and>
    (\<Sum>d \<in> dom (Domains r).
        PolicyNone (lookup_row (Domains r) d) + PolicyQuarantine (lookup_row (Domains r) d) +
        PolicyReject (lookup_row (Domains r) d)) = sum_list (map Count (Records fb)) \<and>
    (\<forall>d. PolicyNone (lookup_row (Domains r) d) + PolicyQuarantine (lookup_row (Domains r) d) +
        PolicyReject (lookup_row (Domains r) d) =
        sum_list (map Count (records_of d (Records fb)))) \<and>
    (counts_in_range (Records fb) \<or>
     (\<forall>rec \<in> set (Records fb). 0 \<le> sint (Count rec)) \<and> counts_int (Records fb) < 2 ^ 63 \<longrightarrow>
       (\<Sum>d \<in> dom (Domains r).
          sint (PolicyNone (lookup_row (Domains r) d)) +
          sint (PolicyQuarantine (lookup_row (Domains r) d)) +
          sint (PolicyReject (lookup_row (Domains r) d))) = counts_int (Records fb) \<and>
       (\<forall>d. sint (PolicyNone (lookup_row (Domains r) d)) +
          sint (PolicyQuarantine (lookup_row (Domains r) d)) +
          sint (PolicyReject (lookup_row (Domains r) d)) =
          counts_int (records_of d (Records fb))))"
proof -
  from word_dispositions_sum [OF assms] obtain r where r: "aggregate fb = Inr r"
    and w: "(\<Sum>d \<in> dom (Domains r).
        PolicyNone (lookup_row (Domains r) d) + PolicyQuarantine (lookup_row (Domains r) d) +
        PolicyReject (lookup_row (Domains r) d)) = sum_list (map Count (Records fb))"
      "dom (Domains r) = AggregateReportRecord.HeaderFrom ` set (Records fb)"
      "\<forall>d. PolicyNone (lookup_row (Domains r) d) + PolicyQuarantine (lookup_row (Domains r) d) +
        PolicyReject (lookup_row (Domains r) d) =
        sum_list (map Count (records_of d (Records fb)))"
    unfolding records_of_def by blast
  have "(\<Sum>d \<in> dom (Domains r).
          sint (PolicyNone (lookup_row (Domains r) d)) +
          sint (PolicyQuarantine (lookup_row (Domains r) d)) +
          sint (PolicyReject (lookup_row (Domains r) d))) = counts_int (Records fb) \<and>
       (\<forall>d. sint (PolicyNone (lookup_row (Domains r) d)) +
          sint (PolicyQuarantine (lookup_row (Domains r) d)) +
          sint (PolicyReject (lookup_row (Domains r) d)) =
          counts_int (records_of d (Records fb)))"
    if "counts_in_range (Records fb) \<or>
     (\<forall>rec \<in> set (Records fb). 0 \<le> sint (Count rec)) \<and> counts_int (Records fb) < 2 ^ 63"
  proof -
    from that have "counts_in_range (Records fb)"
      using nonneg_counts_in_range by blast
    from int_dispositions_sum [OF assms this r] show ?thesis
      unfolding total_dispositions_int_def dispositions_int_def by blast
  qed
  with r w show ?thesis by blast
qed

theorem dispositions_sum_witness:
  "valid_tokens (example_record 10 ''none'' ''pass'' ''pass'') \<and>
   valid_tokens (example_record 5 ''reject'' ''fail'' ''fail'') \<and>
   counts_in_range (Records (example_document
      [example_record 10 ''none'' ''pass'' ''pass'', example_record 5 ''reject'' ''fail'' ''fail''])) \<and>
   (\<exists>r. aggregate (example_document
          [example_record 10 ''none'' ''pass'' ''pass'', example_record 5 ''reject'' ''fail'' ''fail''])
        = Inr r \<and>
    dom (Domains r) = {''example.com''} \<and>
    PolicyNone (lookup_row (Domains r) ''example.com'') +
    PolicyQuarantine (lookup_row (Domains r) ''example.com'') +
    PolicyReject (lookup_row (Domains r) ''example.com'') = 15 \<and>
    sint (PolicyNone (lookup_row (Domains r) ''example.com'')) +
    sint (PolicyQuarantine (lookup_row (Domains r) ''example.com'')) +
    sint (PolicyReject (lookup_row (Domains r) ''example.com'')) = 15)"
proof -
  let ?doc = "example_document
          [example_record 10 ''none'' ''pass'' ''pass'', example_record 5 ''reject'' ''fail'' ''fail'']"
  have recs: "Records ?doc =
      [example_record 10 ''none'' ''pass'' ''pass'', example_record 5 ''reject'' ''fail'' ''fail'']"
    by (simp add: example_document_def)
  have v: "\<forall>rec \<in> set (Records ?doc). valid_tokens rec"
    by (simp add: recs) (simp add: example_record_def valid_tokens_def)
  have c: "counts_in_range (Records ?doc)"
    unfolding recs
    by (simp add: counts_in_range_def records_with_def counts_int_def int64_range_def
        example_record_def)
  have t: "counts_int (records_of ''example.com'' (Records ?doc)) = 15"
    unfolding recs by (simp add: counts_int_def records_of_def example_record_def)
  have w: "sum_list (map Count (records_of ''example.com'' (Records ?doc))) = 15"
    unfolding recs by (simp add: records_of_def example_record_def)
  from dispositions_sum [OF v] c obtain r where r: "aggregate ?doc = Inr r"
    and d: "dom (Domains r) = AggregateReportRecord.HeaderFrom ` set (Records ?doc)"
    and s: "PolicyNone (lookup_row (Domains r) ''example.com'') +
        PolicyQuarantine (lookup_row (Domains r) ''example.com'') +
        PolicyReject (lookup_row (Domains r) ''example.com'') =
        sum_list (map Count (records_of ''example.com'' (Records ?doc)))"
    and i: "sint (PolicyNone (lookup_row (Domains r) ''example.com'')) +
          sint (PolicyQuarantine (lookup_row (Domains r) ''example.com'')) +
          sint (PolicyReject (lookup_row (Domains r) ''example.com'')) =
          counts_int (records_of ''example.com'' (Records ?doc))"
    by blast
  have d': "dom (Domains r) = {''example.com''}"
    unfolding d recs by (simp add: example_record_def)
  have v': "valid_tokens (example_record 10 ''none'' ''pass'' ''pass'')"
    "valid_tokens (example_record 5 ''reject'' ''fail'' ''fail'')"
    using v by (simp_all add: recs)
  from v' c r d' s i t w show ?thesis by auto
qed

section \<open>Counters under negative counts and overflow\<close>








section \<open>Sorting\<close>























section \<open>The sort option\<close>

text \<open>
  Against C6 as it is stated. The sort option is looked at only when the channel of
  reports has been closed, after every stream has been parsed: with the unknown option
  size, a stream with a bad disposition ends the run with the error of that
  disposition, and a stream that does not decode ends it with the decoding error; the
  option is never reached.
\<close>

theorem unknown_sort_option_late_counterexample:
  "main ''size'' [Some (example_document [example_record 1 ''foo'' ''pass'' ''pass''])]
     = Inl (UnexpectedDisposition ''foo'') \<and>
   main ''size'' [None] = Inl DecodeError \<and>
   main ''size'' [Some (example_document [example_record 1 ''foo'' ''pass'' ''pass''])]
     \<noteq> Inl (UnknownSortOption ''size'')"
  by (simp add: main_def parse_def aggregate_def Report_Add_def add_Disposition_def
      example_document_def example_record_def Let_def)

text \<open>
  C6, amended. A run whose sort option is none of date, domain, organization always
  fails. When the parsing of a stream fails, the run fails with that error; when all
  streams have been parsed and aggregated, it fails with the error of the unknown
  option, before anything is sorted or formatted.
\<close>

theorem unknown_sort_option:
  assumes "sortOrder \<notin> {''date'', ''domain'', ''organization''}"
  shows "(\<exists>e. main sortOrder streams = Inl e) \<and>
    (\<forall>e. ingest streams = Inl e \<longrightarrow> main sortOrder streams = Inl e) \<and>
    (\<forall>reports. ingest streams = Inr reports \<longrightarrow>
       main sortOrder streams = Inl (UnknownSortOption sortOrder))"
  using assms by (cases "ingest streams") (simp_all add: main_def sort_reports_def)

theorem unknown_sort_option_witness:
  "''size'' \<notin> {''date'', ''domain'', ''organization''} \<and>
   ingest [Some (example_document [example_record 10 ''none'' ''pass'' ''pass''])] \<noteq> Inl DecodeError \<and>
   main ''size'' [Some (example_document [example_record 10 ''none'' ''pass'' ''pass''])]
     = Inl (UnknownSortOption ''size'') \<and>
   ingest [None] = Inl DecodeError \<and>
   main ''size'' [None] = Inl DecodeError"
proof -
  have k: "''size'' \<notin> {''date'', ''domain'', ''organization''}" by simp
  have v: "valid_tokens (example_record 10 ''none'' ''pass'' ''pass'')"
    by (simp add: valid_tokens_def example_record_def)
  have a: "\<exists>reports.
      ingest [Some (example_document [example_record 10 ''none'' ''pass'' ''pass''])] = Inr reports"
    by (simp add: parse_def aggregate_def example_document_def Report_Add_valid [OF v])
  have b: "ingest [None] = Inl DecodeError"
    by (simp add: parse_def)
  from unknown_sort_option [OF k, of "[Some (example_document [example_record 10 ''none'' ''pass'' ''pass''])]"]
    unknown_sort_option [OF k, of "[None]"] k a b
  show ?thesis by auto
qed

section \<open>Conversion of the date fields\<close>

lemma digit_val_range: "is_digit c \<Longrightarrow> 0 \<le> digit_val c \<and> digit_val c \<le> 9"
proof -
  assume "is_digit c"
  then have "(48::nat) \<le> of_char c \<and> of_char c \<le> (57::nat)"
    by (simp add: is_digit_def less_eq_char_def)
  then have "(48::int) \<le> int (of_char c) \<and> int (of_char c) \<le> 57"
    by linarith
  then show ?thesis
    by (simp add: digit_val_def of_nat_of_char)
qed

lemma decimal_Cons [simp]: "decimal n (c # s) = decimal (n * 10 + digit_val c) s"
  by (simp add: decimal_def)

lemma decimal_Nil [simp]: "decimal n [] = n"
  by (simp add: decimal_def)

lemma decimal_ge: "list_all is_digit s \<Longrightarrow> 0 \<le> n \<Longrightarrow> n \<le> decimal n s"
proof (induction s arbitrary: n)
  case Nil
  show ?case by simp
next
  case (Cons c s)
  then have d: "0 \<le> digit_val c" using digit_val_range by simp
  with Cons.prems have "0 \<le> n * 10 + digit_val c" by simp
  with Cons have "n * 10 + digit_val c \<le> decimal (n * 10 + digit_val c) s" by simp
  with d Cons.prems show ?case by simp
qed

lemma ParseUint_loop_digits:
  "list_all is_digit s \<Longrightarrow> 0 \<le> n \<Longrightarrow> n \<le> maxUint64 \<Longrightarrow>
   ParseUint_loop n s =
     (if decimal n s \<le> maxUint64 then (decimal n s, None) else (maxUint64, Some ErrRange))"
proof (induction s arbitrary: n)
  case Nil
  then show ?case by simp
next
  case (Cons c s)
  let ?n1 = "n * 10 + digit_val c"
  from Cons.prems have c: "is_digit c" and s: "list_all is_digit s" by simp_all
  from c have d: "0 \<le> digit_val c" "digit_val c \<le> 9" using digit_val_range by simp_all
  from d Cons.prems have n1: "0 \<le> ?n1" by simp
  have ge: "?n1 \<le> decimal ?n1 s" using decimal_ge [OF s n1] .
  show ?case
  proof (cases "n \<ge> maxUint64 div 10 + 1")
    case True
    then have "?n1 > maxUint64" using d by (simp add: maxUint64_def)
    with ge True c show ?thesis by simp
  next
    case False
    show ?thesis
    proof (cases "?n1 > maxUint64")
      case True
      with ge False c show ?thesis by simp
    next
      case n1le: False
      with False c Cons.IH [OF s n1] show ?thesis by simp
    qed
  qed
qed

lemma ParseUint_loop_nondigit:
  "list_all is_digit ds \<Longrightarrow> \<not> is_digit c \<Longrightarrow> 0 \<le> n \<Longrightarrow> n \<le> maxUint64 \<Longrightarrow>
   ParseUint_loop n (ds @ c # rest) =
     (if decimal n ds \<le> maxUint64 then (0, Some ErrSyntax) else (maxUint64, Some ErrRange))"
proof (induction ds arbitrary: n)
  case Nil
  then show ?case by simp
next
  case (Cons a ds)
  let ?n1 = "n * 10 + digit_val a"
  from Cons.prems have a: "is_digit a" and s: "list_all is_digit ds" by simp_all
  from a have d: "0 \<le> digit_val a" "digit_val a \<le> 9" using digit_val_range by simp_all
  from d Cons.prems have n1: "0 \<le> ?n1" by simp
  have ge: "?n1 \<le> decimal ?n1 ds" using decimal_ge [OF s n1] .
  show ?case
  proof (cases "n \<ge> maxUint64 div 10 + 1")
    case True
    then have "?n1 > maxUint64" using d by (simp add: maxUint64_def)
    with ge True a show ?thesis by simp
  next
    case False
    show ?thesis
    proof (cases "?n1 > maxUint64")
      case True
      with ge False a show ?thesis by simp
    next
      case n1le: False
      with False a Cons.IH [OF s Cons.prems(2) n1] show ?thesis by simp
    qed
  qed
qed

lemma Time_Unix_Unix [simp]: "Time_Unix (Unix sec) = sec"
  by (simp add: Time_Unix_def Unix_def)

lemma Atoi_numeral:
  assumes "is_numeral t"
  shows "fst (Atoi t) =
    (if 2 ^ 63 \<le> numeral_value t then 2 ^ 63 - 1
     else if numeral_value t < - (2 ^ 63) then - (2 ^ 63)
     else word_of_int (numeral_value t))"
proof -
  from assms have t: "t \<noteq> []"
    by (auto simp: is_numeral_def numeral_body_def)
  let ?b = "numeral_body t"
  from assms have b: "?b \<noteq> []" "list_all is_digit ?b"
    by (simp_all add: is_numeral_def)
  have un: "0 \<le> decimal 0 ?b"
    using decimal_ge [OF b(2), of 0] by simp
  have P: "ParseUint ?b =
      (if decimal 0 ?b \<le> maxUint64 then (decimal 0 ?b, None) else (maxUint64, Some ErrRange))"
    using b ParseUint_loop_digits [OF b(2), of 0] by (simp add: ParseUint_def maxUint64_def)
  have body: "(if hd t = CHR ''+'' \<or> hd t = CHR ''-'' then tl t else t) = ?b"
    using t by (simp add: numeral_body_def)
  show ?thesis
  proof (cases "decimal 0 ?b \<le> maxUint64")
    case True
    with P have "ParseUint ?b = (decimal 0 ?b, None)" by simp
    then show ?thesis
      using t un unfolding Atoi_def body Let_def numeral_value_def
      by (auto simp: Let_def)
  next
    case False
    with P have "ParseUint ?b = (maxUint64, Some ErrRange)" by simp
    then show ?thesis
      using t False unfolding Atoi_def body Let_def numeral_value_def
      by (auto simp: maxUint64_def)
  qed
qed

lemma Atoi_not_numeral:
  assumes "\<not> is_numeral t"
  shows "fst (Atoi t) =
    (if decimal 0 (takeWhile is_digit (numeral_body t)) < 2 ^ 64 then 0
     else if hd t = CHR ''-'' then - (2 ^ 63) else 2 ^ 63 - 1)"
proof (cases "t = []")
  case True
  then show ?thesis by (simp add: Atoi_def numeral_body_def)
next
  case t: False
  let ?b = "numeral_body t"
  have body: "(if hd t = CHR ''+'' \<or> hd t = CHR ''-'' then tl t else t) = ?b"
    using t by (simp add: numeral_body_def)
  show ?thesis
  proof (cases "?b = []")
    case True
    then show ?thesis
      using t unfolding Atoi_def body by (simp add: ParseUint_def)
  next
    case False
    let ?ds = "takeWhile is_digit ?b"
    from assms False have "\<not> list_all is_digit ?b"
      by (simp add: is_numeral_def)
    then have "dropWhile is_digit ?b \<noteq> []"
      by (simp add: list_all_iff)
    then obtain c rest where cr: "dropWhile is_digit ?b = c # rest"
      by (cases "dropWhile is_digit ?b") auto
    then have c: "\<not> is_digit c"
      using hd_dropWhile [of is_digit ?b] by auto
    have split: "?b = ?ds @ c # rest"
      using takeWhile_dropWhile_id [of is_digit ?b] cr by simp
    have ds: "list_all is_digit ?ds"
      by (auto simp: list_all_iff dest: set_takeWhileD)
    have "ParseUint_loop 0 (?ds @ c # rest) =
        (if decimal 0 ?ds \<le> maxUint64 then (0, Some ErrSyntax) else (maxUint64, Some ErrRange))"
      using ParseUint_loop_nondigit [OF ds c, of 0 rest] by (simp add: maxUint64_def)
    with split have P: "ParseUint ?b =
        (if decimal 0 ?ds \<le> maxUint64 then (0, Some ErrSyntax) else (maxUint64, Some ErrRange))"
      using False by (simp add: ParseUint_def)
    show ?thesis
      using t unfolding Atoi_def body Let_def P by (auto simp: maxUint64_def)
  qed
qed

lemma date_of_text:
  "(\<not> is_numeral t \<and> decimal 0 (takeWhile is_digit (numeral_body t)) < 2 ^ 64 \<longrightarrow>
           Unix (fst (Atoi t)) = Unix 0) \<and>
         (is_numeral t \<and> - (2 ^ 63) \<le> numeral_value t \<and> numeral_value t < 2 ^ 63 \<longrightarrow>
           sint (Time_Unix (Unix (fst (Atoi t)))) = numeral_value t) \<and>
         (is_numeral t \<and> 2 ^ 63 \<le> numeral_value t \<longrightarrow>
           Unix (fst (Atoi t)) = Unix (2 ^ 63 - 1)) \<and>
         (is_numeral t \<and> numeral_value t < - (2 ^ 63) \<longrightarrow>
         Unix (fst (Atoi t)) = Unix (- (2 ^ 63)))"
proof (cases "is_numeral t")
  case True
  then show ?thesis
    by (simp add: Atoi_numeral sint_word_of_int_64)
next
  case False
  then show ?thesis
    by (simp add: Atoi_not_numeral)
qed

lemma TrimSpace_examples:
  "TrimSpace ''1700000000'' = ''1700000000''"
  "TrimSpace ''1700003600'' = ''1700003600''"
  "TrimSpace '' 1700003600  '' = ''1700003600''"
  "TrimSpace ''n/a'' = ''n/a''"
  "TrimSpace ''9223372036854775808'' = ''9223372036854775808''"
  "TrimSpace ''99999999999999999999x'' = ''99999999999999999999x''"
  by code_simp+

text \<open>
  Against C9 as it is stated. The text 9223372036854775808 is numeric, and one more
  than the largest \<^verbatim>\<open>int64\<close>: \<open>Atoi\<close> returns the largest \<^verbatim>\<open>int64\<close> with a range
  error, the method drops the error, and the result is the time 9223372036854775807
  seconds after the epoch: neither that many seconds as the text says nor the epoch. The
  text 99999999999999999999x is not numeric and gives the same time, not the epoch.
\<close>

theorem date_field_saturates_counterexample:
  "is_numeral (TrimSpace ''9223372036854775808'') \<and>
   numeral_value (TrimSpace ''9223372036854775808'') = 9223372036854775808 \<and>
   AggregateReport_DateBegin (example_dates ''9223372036854775808'' ''99999999999999999999x'')
     = Unix 9223372036854775807 \<and>
   sint (Time_Unix
     (AggregateReport_DateBegin (example_dates ''9223372036854775808'' ''99999999999999999999x'')))
     = 9223372036854775807 \<and>
   \<not> is_numeral (TrimSpace ''99999999999999999999x'') \<and>
   AggregateReport_DateEnd (example_dates ''9223372036854775808'' ''99999999999999999999x'')
     = Unix 9223372036854775807 \<and>
   Unix 9223372036854775807 \<noteq> Unix 0"
  by (simp add: AggregateReport_DateBegin_def AggregateReport_DateEnd_def example_dates_def
      TrimSpace_examples is_numeral_def numeral_value_def numeral_body_def
      Atoi_def ParseUint_def is_digit_def digit_val_def maxUint64_def Unix_def Time_Unix_def)

text \<open>
  C9, amended. Let \<open>b\<close> be the text of the begin field without the white space around
  it. If \<open>b\<close> is not numeric (and the digits it starts with, if any, denote a number
  below \<open>2 ^ 64\<close>), \<open>DateBegin\<close> is the epoch, Unix time 0. If \<open>b\<close> is numeric and its
  value is in the range of \<^verbatim>\<open>int64\<close>, \<open>DateBegin\<close> is that many seconds after the epoch.
  If \<open>b\<close> is numeric and its value is beyond that range, \<open>DateBegin\<close> is the bound of
  the range on that side. The same holds for the end field and \<open>DateEnd\<close>.
\<close>

theorem date_field_conversion:
  "(let b = TrimSpace (DateRangeBegin fb)
    in (\<not> is_numeral b \<and> decimal 0 (takeWhile is_digit (numeral_body b)) < 2 ^ 64 \<longrightarrow>
          AggregateReport_DateBegin fb = Unix 0) \<and>
       (is_numeral b \<and> - (2 ^ 63) \<le> numeral_value b \<and> numeral_value b < 2 ^ 63 \<longrightarrow>
          sint (Time_Unix (AggregateReport_DateBegin fb)) = numeral_value b) \<and>
       (is_numeral b \<and> 2 ^ 63 \<le> numeral_value b \<longrightarrow>
          AggregateReport_DateBegin fb = Unix (2 ^ 63 - 1)) \<and>
       (is_numeral b \<and> numeral_value b < - (2 ^ 63) \<longrightarrow>
          AggregateReport_DateBegin fb = Unix (- (2 ^ 63)))) \<and>
   (let e = TrimSpace (DateRangeEnd fb)
    in (\<not> is_numeral e \<and> decimal 0 (takeWhile is_digit (numeral_body e)) < 2 ^ 64 \<longrightarrow>
          AggregateReport_DateEnd fb = Unix 0) \<and>
       (is_numeral e \<and> - (2 ^ 63) \<le> numeral_value e \<and> numeral_value e < 2 ^ 63 \<longrightarrow>
          sint (Time_Unix (AggregateReport_DateEnd fb)) = numeral_value e) \<and>
       (is_numeral e \<and> 2 ^ 63 \<le> numeral_value e \<longrightarrow>
          AggregateReport_DateEnd fb = Unix (2 ^ 63 - 1)) \<and>
       (is_numeral e \<and> numeral_value e < - (2 ^ 63) \<longrightarrow>
          AggregateReport_DateEnd fb = Unix (- (2 ^ 63))))"
  unfolding Let_def AggregateReport_DateBegin_def AggregateReport_DateEnd_def
  using date_of_text [of "TrimSpace (DateRangeBegin fb)"]
    date_of_text [of "TrimSpace (DateRangeEnd fb)"]
  by blast

theorem date_field_conversion_witness:
  "is_numeral (TrimSpace ''1700000000'') \<and>
   sint (Time_Unix (AggregateReport_DateBegin (example_dates ''1700000000'' ''n/a''))) = 1700000000 \<and>
   \<not> is_numeral (TrimSpace ''n/a'') \<and>
   AggregateReport_DateEnd (example_dates ''1700000000'' ''n/a'') = Unix 0 \<and>
   is_numeral (TrimSpace ''9223372036854775808'') \<and>
   AggregateReport_DateBegin (example_dates ''9223372036854775808'' '' 1700003600  '')
     = Unix (2 ^ 63 - 1) \<and>
   sint (Time_Unix (AggregateReport_DateEnd (example_dates ''9223372036854775808'' '' 1700003600  '')))
     = 1700003600"
  using date_field_conversion [of "example_dates ''1700000000'' ''n/a''"]
    date_field_conversion [of "example_dates ''9223372036854775808'' '' 1700003600  ''"]
  by (simp add: example_dates_def TrimSpace_examples is_numeral_def numeral_value_def
      numeral_body_def is_digit_def digit_val_def)

section \<open>The calendar of the formatted dates\<close>

lemma layout_chunks_DATEFMT:
  "layout_chunks DATEFMT =
     [stdLongYear, Literal CHR ''-'', stdZeroMonth, Literal CHR ''-'', stdZeroDay,
      Literal CHR '' '', stdZeroHour12, Literal CHR '':'', stdZeroMinute, Literal CHR '':'',
      stdZeroSecond]"
  by code_simp

lemma char_of_48: "char_of (48::nat) = CHR ''0''"
  by code_simp

lemma div_div_nat:
  "(n::nat) div 10 div 100 = n div 1000" "n div 10 div 10 = n div 100"
  by (simp_all add: div_mult2_eq [symmetric])

lemma digits_of_1: "n < 10 \<Longrightarrow> digits_of n = [char_of (48 + n)]"
  by (simp add: digits_of.simps)

lemma digits_of_2: "10 \<le> n \<Longrightarrow> n < 100 \<Longrightarrow> digits_of n = two_digits n"
  by (subst digits_of.simps) (simp add: digits_of_1 two_digits_def)

lemma digits_of_3:
  "100 \<le> n \<Longrightarrow> n < 1000 \<Longrightarrow>
   digits_of n = [char_of (48 + n div 100), char_of (48 + n div 10 mod 10), char_of (48 + n mod 10)]"
  by (subst digits_of.simps) (simp add: digits_of_2 two_digits_def div_div_nat)

lemma digits_of_4: "1000 \<le> n \<Longrightarrow> n < 10000 \<Longrightarrow> digits_of n = four_digits n"
  by (subst digits_of.simps) (simp add: digits_of_3 four_digits_def div_div_nat)

lemma replicate_pad:
  "replicate 3 x = [x, x, x]" "replicate 2 x = [x, x]"
  by (simp_all add: numeral_eq_Suc)

lemma appendInt_2: "n < 100 \<Longrightarrow> appendInt (int n) 2 = two_digits n"
proof (cases "n < 10")
  case True
  then show ?thesis
    by (simp add: appendInt_def digits_of_1 two_digits_def char_of_48)
next
  case False
  assume "n < 100"
  with False show ?thesis
    by (simp add: appendInt_def digits_of_2) (simp add: two_digits_def)
qed

lemma appendInt_4: "0 \<le> y \<Longrightarrow> y \<le> 9999 \<Longrightarrow> appendInt y 4 = four_digits (nat y)"
proof -
  assume y: "0 \<le> y" "y \<le> 9999"
  define n where "n = nat y"
  with y have n: "n < 10000" and yn: "y = int n" by simp_all
  consider "n < 10" | "10 \<le> n" "n < 100" | "100 \<le> n" "n < 1000" | "1000 \<le> n"
    by linarith
  then have "replicate (4 - length (digits_of n)) CHR ''0'' @ digits_of n = four_digits n"
  proof cases
    case 1
    then show ?thesis by (simp add: digits_of_1 four_digits_def char_of_48 replicate_pad)
  next
    case 2
    then show ?thesis
      by (simp add: digits_of_2 two_digits_def four_digits_def char_of_48 replicate_pad)
  next
    case 3
    then show ?thesis by (simp add: digits_of_3 four_digits_def char_of_48 replicate_pad)
  next
    case 4
    with n show ?thesis by (simp add: digits_of_4) (simp add: four_digits_def)
  qed
  moreover have "nat y = n" "nat \<bar>y\<bar> = n" "\<not> y < 0"
    using y by (simp_all add: n_def)
  ultimately show ?thesis
    by (simp add: appendInt_def)
qed

lemma div_bounds:
  fixes a k :: int
  assumes "0 < k"
  shows "k * (a div k) \<le> a" and "a < k * (a div k) + k"
proof -
  have "a = k * (a div k) + a mod k" by simp
  moreover have "0 \<le> a mod k" "a mod k < k" using assms by simp_all
  ultimately show "k * (a div k) \<le> a" and "a < k * (a div k) + k" by linarith+
qed

lemma absDate_inverse:
  assumes "absDate days = (y, yday)"
  shows "days = days_before_year y + int yday \<and> yday < (if isLeap y then 366 else 365)"
proof -
  define d where "d = days + 719162"
  define n400 where "n400 = d div 146097"
  define d1 where "d1 = d - 146097 * n400"
  define q100 where "q100 = d1 div 36524"
  define n100 where "n100 = q100 - q100 div 4"
  define d2 where "d2 = d1 - 36524 * n100"
  define n4 where "n4 = d2 div 1461"
  define d3 where "d3 = d2 - 1461 * n4"
  define q1 where "q1 = d3 div 365"
  define n1 where "n1 = q1 - q1 div 4"
  define d4 where "d4 = d3 - 365 * n1"
  define Y where "Y = 400 * n400 + 100 * n100 + 4 * n4 + n1"
  have d1: "0 \<le> d1" "d1 < 146097"
    using div_bounds [of 146097 d] unfolding d1_def n400_def by simp_all
  have q100m: "36524 * q100 \<le> d1" "d1 < 36524 * q100 + 36524"
    using div_bounds [of 36524 d1] unfolding q100_def by simp_all
  with d1 have q100: "0 \<le> q100" "q100 \<le> 4" by linarith+
  then have q100c: "q100 = 0 \<or> q100 = 1 \<or> q100 = 2 \<or> q100 = 3 \<or> q100 = 4" by arith
  have n100: "0 \<le> n100" "n100 \<le> 3" "q100 \<le> 3 \<longrightarrow> n100 = q100" "q100 = 4 \<longrightarrow> n100 = 3"
    using q100c unfolding n100_def by auto
  have d2: "0 \<le> d2" "d2 \<le> 36524" "d2 = 36524 \<longrightarrow> n100 = 3"
    using d1 q100 q100m n100 q100c unfolding d2_def by auto
  have n4m: "1461 * n4 \<le> d2" "d2 < 1461 * n4 + 1461"
    using div_bounds [of 1461 d2] unfolding n4_def by simp_all
  with d2 have n4: "0 \<le> n4" "n4 \<le> 24" by linarith+
  have d3: "0 \<le> d3" "d3 \<le> 1460"
    using n4m unfolding d3_def by auto
  have q1m: "365 * q1 \<le> d3" "d3 < 365 * q1 + 365"
    using div_bounds [of 365 d3] unfolding q1_def by simp_all
  with d3 have q1: "0 \<le> q1" "q1 \<le> 4" by linarith+
  then have q1c: "q1 = 0 \<or> q1 = 1 \<or> q1 = 2 \<or> q1 = 3 \<or> q1 = 4" by arith
  have n1: "0 \<le> n1" "n1 \<le> 3" "q1 \<le> 3 \<longrightarrow> n1 = q1" "q1 = 4 \<longrightarrow> n1 = 3"
    using q1c unfolding n1_def by auto
  have d4: "0 \<le> d4" "d4 \<le> 365" "d4 = 365 \<longrightarrow> n1 = 3 \<and> d3 = 1460"
    using d3 q1 q1m n1 q1c unfolding d4_def by auto
  have abs: "absDate days = (Y + 1, nat d4)"
    unfolding absDate_def Let_def Y_def d4_def n1_def q1_def d3_def n4_def d2_def n100_def
      q100_def d1_def n400_def d_def
    by (rule refl)
  with assms have y: "y = Y + 1" and yd: "yday = nat d4" by simp_all
  have sum: "d = 146097 * n400 + 36524 * n100 + 1461 * n4 + 365 * n1 + d4"
    unfolding d4_def d3_def d2_def d1_def by simp
  have Y4: "Y div 4 = 100 * n400 + 25 * n100 + n4"
    using n1(1,2) by (intro int_div_pos_eq [where r = n1]) (simp_all add: Y_def)
  have Y100: "Y div 100 = 4 * n400 + n100"
    using n1(1,2) n4 by (intro int_div_pos_eq [where r = "4 * n4 + n1"]) (simp_all add: Y_def)
  have Y400: "Y div 400 = n400"
    using n1(1,2) n4 n100(1,2)
    by (intro int_div_pos_eq [where r = "100 * n100 + 4 * n4 + n1"]) (simp_all add: Y_def)
  have inv: "days = days_before_year y + int yday"
    using sum d4 unfolding days_before_year_def y yd d_def
    by (simp add: Y4 Y100 Y400) (simp add: Y_def)
  have n1c: "n1 = 0 \<or> n1 = 1 \<or> n1 = 2 \<or> n1 = 3" using n1(1,2) by arith
  have m4: "(Y + 1) mod 4 = 0 \<longleftrightarrow> n1 = 3"
  proof -
    have "Y + 1 = 4 * (100 * n400 + 25 * n100 + n4) + (n1 + 1)"
      by (simp add: Y_def)
    then have "(Y + 1) mod 4 = (n1 + 1) mod 4"
      by (simp only: mod_mult_self4)
    with n1c show ?thesis by auto
  qed
  have m100: "(Y + 1) mod 100 = 0 \<longleftrightarrow> n4 = 24 \<and> n1 = 3"
  proof -
    have "Y + 1 = 100 * (4 * n400 + n100) + (4 * n4 + n1 + 1)"
      by (simp add: Y_def)
    then have "(Y + 1) mod 100 = (4 * n4 + n1 + 1) mod 100"
      by (simp only: mod_mult_self4)
    moreover have "0 < 4 * n4 + n1 + 1" "4 * n4 + n1 + 1 \<le> 100"
      using n1(1,2) n4 by linarith+
    ultimately show ?thesis using n1(1,2) n4 by (cases "4 * n4 + n1 + 1 = 100") auto
  qed
  have m400: "(Y + 1) mod 400 = 0 \<longleftrightarrow> n100 = 3 \<and> n4 = 24 \<and> n1 = 3"
  proof -
    have "Y + 1 = 400 * n400 + (100 * n100 + 4 * n4 + n1 + 1)"
      by (simp add: Y_def)
    then have "(Y + 1) mod 400 = (100 * n100 + 4 * n4 + n1 + 1) mod 400"
      by (simp only: mod_mult_self4)
    moreover have "0 < 100 * n100 + 4 * n4 + n1 + 1" "100 * n100 + 4 * n4 + n1 + 1 \<le> 400"
      using n1(1,2) n4 n100(1,2) by linarith+
    ultimately show ?thesis
      using n1(1,2) n4 n100(1,2) by (cases "100 * n100 + 4 * n4 + n1 + 1 = 400") auto
  qed
  have leap: "isLeap y \<longleftrightarrow> n1 = 3 \<and> (n4 \<noteq> 24 \<or> n100 = 3)"
    unfolding isLeap_def y m4 m100 m400 by auto
  have "d4 = 365 \<longrightarrow> isLeap y"
  proof
    assume "d4 = 365"
    with d4 have a: "n1 = 3" "d3 = 1460" by simp_all
    have "n4 = 24 \<longrightarrow> n100 = 3"
    proof
      assume "n4 = 24"
      with a have "d2 = 36524" unfolding d3_def by simp
      with d2 show "n100 = 3" by simp
    qed
    with a leap show "isLeap y" by auto
  qed
  with d4 have "yday < (if isLeap y then 366 else 365)"
    unfolding yd by auto
  with inv show ?thesis by simp
qed

lemma month_day_unfold:
  "month_day leap yday =
     (if leap \<and> yday = 59 then (2, 29)
      else let dd = (if leap \<and> yday > 59 then yday - 1 else yday); k = dd div 31
           in if daysBefore ! (k + 1) \<le> dd then (k + 2, dd - daysBefore ! (k + 1) + 1)
              else (k + 1, dd - daysBefore ! k + 1))"
  by (simp add: month_day_def Let_def)

lemma month_of_day:
  assumes "dd \<le> 364"
  defines "k \<equiv> dd div 31"
  defines "md \<equiv> (if daysBefore ! (k + 1) \<le> dd then (k + 2, dd - daysBefore ! (k + 1) + 1)
              else (k + 1, dd - daysBefore ! k + 1))"
  shows "1 \<le> fst md \<and> fst md \<le> 12 \<and> 1 \<le> snd md \<and>
         daysBefore ! (fst md - 1) + snd md = dd + 1 \<and>
         dd < daysBefore ! (fst md) \<and>
         (59 \<le> dd \<longrightarrow> 3 \<le> fst md) \<and> (dd < 59 \<longrightarrow> fst md \<le> 2)"
proof -
  have k: "31 * k \<le> dd" "dd < 31 * k + 31"
    unfolding k_def by presburger+
  with assms(1) have "k \<le> 11" by simp
  then have "k = 0 \<or> k = 1 \<or> k = 2 \<or> k = 3 \<or> k = 4 \<or> k = 5 \<or> k = 6 \<or> k = 7 \<or>
      k = 8 \<or> k = 9 \<or> k = 10 \<or> k = 11"
    by arith
  then show ?thesis
    using k assms(1) by (elim disjE; simp add: md_def daysBefore_def; arith?)
qed

lemma month_day_valid:
  assumes "yday < (if leap then 366 else 365)"
  shows "1 \<le> fst (month_day leap yday) \<and> fst (month_day leap yday) \<le> 12 \<and>
         1 \<le> snd (month_day leap yday) \<and>
         daysBefore ! (fst (month_day leap yday) - 1) +
           (if leap \<and> 2 < fst (month_day leap yday) then 1 else 0) +
           snd (month_day leap yday) = yday + 1 \<and>
         snd (month_day leap yday) \<le>
           daysBefore ! (fst (month_day leap yday)) - daysBefore ! (fst (month_day leap yday) - 1) +
           (if leap \<and> fst (month_day leap yday) = 2 then 1 else 0)"
proof (cases "leap \<and> yday = 59")
  case True
  then show ?thesis
    by (simp add: month_day_unfold daysBefore_def)
next
  case False
  define dd where "dd = (if leap \<and> yday > 59 then yday - 1 else yday)"
  define k where "k = dd div 31"
  define md where "md = (if daysBefore ! (k + 1) \<le> dd then (k + 2, dd - daysBefore ! (k + 1) + 1)
              else (k + 1, dd - daysBefore ! k + 1))"
  have md: "month_day leap yday = md"
    using False by (auto simp: month_day_unfold Let_def dd_def k_def md_def)
  from assms have dd: "dd \<le> 364"
    by (auto simp: dd_def split: if_splits)
  obtain mo da where p: "md = (mo, da)" by (cases md)
  have r: "month_day leap yday = (mo, da)" using md p by simp
  from month_of_day [OF dd, folded k_def, folded md_def]
  have m: "1 \<le> mo" "mo \<le> 12" "1 \<le> da" "daysBefore ! (mo - 1) + da = dd + 1"
    "dd < daysBefore ! mo" "59 \<le> dd \<longrightarrow> 3 \<le> mo" "dd < 59 \<longrightarrow> mo \<le> 2"
    unfolding p by simp_all
  have goal: "1 \<le> mo \<and> mo \<le> 12 \<and> 1 \<le> da \<and>
         daysBefore ! (mo - 1) + (if leap \<and> 2 < mo then 1 else 0) + da = yday + 1 \<and>
         da \<le> daysBefore ! mo - daysBefore ! (mo - 1) + (if leap \<and> mo = 2 then 1 else 0)"
  proof (cases "leap \<and> yday > 59")
    case True
    then have "59 \<le> dd" "yday = dd + 1" by (auto simp: dd_def)
    with m True show ?thesis by auto
  next
    case f: False
    then have y: "yday = dd" by (auto simp: dd_def)
    show ?thesis
    proof (cases leap)
      case True
      with f False have "dd < 59" unfolding y by auto
      with m True show ?thesis unfolding y by auto
    next
      case False
      with m show ?thesis unfolding y by auto
    qed
  qed
  then show ?thesis unfolding r fst_conv snd_conv .
qed

lemma clock_split:
  fixes c :: nat
  shows "int (c div 3600) * 3600 + int (c mod 3600 div 60) * 60 + int (c mod 60) = int c"
proof -
  have "c mod 3600 mod 60 = c mod 60"
    by (simp add: mod_mod_cancel)
  then have "c mod 3600 = 60 * (c mod 3600 div 60) + c mod 60"
    using div_mult_mod_eq [of "c mod 3600" 60] by simp
  moreover have "c = 3600 * (c div 3600) + c mod 3600"
    by simp
  ultimately have "c = 3600 * (c div 3600) + 60 * (c mod 3600 div 60) + c mod 60"
    by linarith
  then have "int c = int (3600 * (c div 3600) + 60 * (c mod 3600 div 60) + c mod 60)"
    by simp
  then show ?thesis by simp
qed

lemma UTC_Fields_calendar:
  "valid_fields (UTC_Fields t) \<and>
   civil_seconds (UTC_Fields t) = Time_abs t - 9223372028715321600 \<and>
   (Time_abs t - 9223372028715321600) div 86400 < days_before_year (year (UTC_Fields t)) + 366"
proof -
  define s where "s = Time_abs t - 9223372028715321600"
  obtain y yday where a: "absDate (s div 86400) = (y, yday)"
    by (cases "absDate (s div 86400)")
  obtain m d where md: "month_day (isLeap y) yday = (m, d)"
    by (cases "month_day (isLeap y) yday")
  define c where "c = nat (s mod 86400)"
  have f: "UTC_Fields t = \<lparr>year = y, month = m, day = d,
          hour = c div 3600, minute = c mod 3600 div 60, second = c mod 60\<rparr>"
    by (simp add: UTC_Fields_def Let_def s_def [symmetric] a md c_def)
  from absDate_inverse [OF a]
  have days: "s div 86400 = days_before_year y + int yday"
    and yday: "yday < (if isLeap y then 366 else 365)" by simp_all
  from month_day_valid [OF yday] md
  have m: "1 \<le> m" "m \<le> 12" "1 \<le> d"
    "daysBefore ! (m - 1) + (if isLeap y \<and> 2 < m then 1 else 0) + d = yday + 1"
    "d \<le> days_in_month y m"
    by (simp_all add: days_in_month_def)
  have c: "c < 86400" "int c = s mod 86400"
    by (simp_all add: c_def nat_less_iff)
  then have clock: "c div 3600 < 24" "c mod 3600 div 60 < 60" "c mod 60 < 60"
    by (simp_all add: div_less_iff_less_mult)
  have "int (daysBefore ! (m - 1)) + (if isLeap y \<and> 2 < m then 1 else 0) + int d = int yday + 1"
    using m(4) by (simp split: if_splits)
  then have e0: "days_from_civil y m d = s div 86400"
    by (simp add: days_from_civil_def days)
  have e1: "int (c div 3600) * 3600 + int (c mod 3600 div 60) * 60 + int (c mod 60) = s mod 86400"
    using clock_split [of c] c(2) by simp
  have e2: "s div 86400 * 86400 + s mod 86400 = s"
    by simp
  have "civil_seconds (UTC_Fields t) =
      s div 86400 * 86400 +
      (int (c div 3600) * 3600 + int (c mod 3600 div 60) * 60 + int (c mod 60))"
    unfolding f civil_seconds_def by (simp add: e0)
  with e1 e2 have "civil_seconds (UTC_Fields t) = s"
    by (simp only:)
  moreover have "s div 86400 < days_before_year (year (UTC_Fields t)) + 366"
    using days yday by (simp add: f split: if_splits)
  ultimately show ?thesis
    using m clock by (simp add: valid_fields_def f s_def)
qed

text \<open>
  In the years up to 9999 the absolute seconds have not wrapped around: the calendar is
  that of the Unix time.
\<close>

lemma Time_abs_eq:
  "Time_abs t = (sint (Time_Unix t) + 9223372028715321600) mod 2 ^ 64"
proof -
  let ?k = "sint (Time_Unix t) + 9223372028715321600"
  have "(word_of_int ?k :: int64) =
      word_of_int (sint (Time_Unix t)) + word_of_int 9223372028715321600"
    by (rule of_int_add)
  also have "\<dots> = Time_Unix t + (unixToInternal + internalToAbsolute)"
    by (simp add: unixToInternal_def internalToAbsolute_def)
  finally have "Time_abs t = uint (word_of_int ?k :: int64)"
    by (simp only: Time_abs_def)
  also have "\<dots> = ?k mod 2 ^ 64"
    unfolding uint_word_of_int_eq take_bit_eq_mod by simp
  finally show ?thesis .
qed

lemma days_before_year_le:
  assumes "0 \<le> y" and "y \<le> 9999"
  shows "days_before_year y \<le> 2932896"
proof -
  have "(y - 1) div 4 \<le> 2499" "(y - 1) div 400 \<le> 24" "- 1 \<le> (y - 1) div 100"
    using assms div_bounds [of 4 "y - 1"] div_bounds [of 400 "y - 1"] div_bounds [of 100 "y - 1"]
    by linarith+
  with assms show ?thesis
    by (simp add: days_before_year_def)
qed

lemma UTC_Fields_Unix:
  assumes "0 \<le> year (UTC_Fields t)" and "year (UTC_Fields t) \<le> 9999"
  shows "Time_abs t - 9223372028715321600 = sint (Time_Unix t)"
proof (cases "0 \<le> sint (Time_Unix t) + 9223372028715321600")
  case True
  moreover have "sint (Time_Unix t) < 2 ^ 63"
    using sint_lt [of "Time_Unix t"] by simp
  ultimately have "(sint (Time_Unix t) + 9223372028715321600) mod 2 ^ 64 =
      sint (Time_Unix t) + 9223372028715321600"
    by (intro mod_pos_pos_trivial) simp_all
  then show ?thesis by (simp add: Time_abs_eq)
next
  case False
  moreover have lo: "- (2 ^ 63) \<le> sint (Time_Unix t)"
    using sint_ge [of "Time_Unix t"] by simp
  ultimately have "(sint (Time_Unix t) + 9223372028715321600 + 2 ^ 64) mod 2 ^ 64 =
      sint (Time_Unix t) + 9223372028715321600 + 2 ^ 64"
    by (intro mod_pos_pos_trivial) simp_all
  then have "Time_abs t = sint (Time_Unix t) + 9223372028715321600 + 2 ^ 64"
    unfolding Time_abs_eq by (simp only: mod_add_self2)
  with lo have big: "2 ^ 63 \<le> Time_abs t - 9223372028715321600"
    by simp
  have "(Time_abs t - 9223372028715321600) div 86400 < 2932896 + 366"
    using UTC_Fields_calendar [of t] days_before_year_le [OF assms] by linarith
  then have "Time_abs t - 9223372028715321600 < (2932896 + 366) * 86400"
    by (simp add: div_less_iff_less_mult)
  with big show ?thesis by simp
qed

lemma days_in_month_le: "1 \<le> m \<Longrightarrow> m \<le> 12 \<Longrightarrow> days_in_month y m \<le> 31"
proof -
  assume "1 \<le> m" "m \<le> 12"
  then have "m = 1 \<or> m = 2 \<or> m = 3 \<or> m = 4 \<or> m = 5 \<or> m = 6 \<or> m = 7 \<or> m = 8 \<or>
      m = 9 \<or> m = 10 \<or> m = 11 \<or> m = 12"
    by arith
  then show ?thesis
    by (elim disjE; simp add: days_in_month_def daysBefore_def)
qed

lemma hour12_range: "1 \<le> hour12 h \<and> hour12 h \<le> 12 \<and> hour12 h mod 12 = h mod 12"
  by (auto simp: hour12_def)

lemma UTC_Format_DATEFMT:
  assumes "0 \<le> year (UTC_Fields t)" and "year (UTC_Fields t) \<le> 9999"
  shows "UTC_Format t DATEFMT = timestamp_text (UTC_Fields t) (hour12 (hour (UTC_Fields t)))"
proof -
  let ?f = "UTC_Fields t"
  have v: "valid_fields ?f" using UTC_Fields_calendar by simp
  then have "day ?f \<le> 31"
    using days_in_month_le [of "month ?f" "year ?f"] by (simp add: valid_fields_def)
  with v have b: "month ?f < 100" "day ?f < 100" "minute ?f < 100" "second ?f < 100"
    by (simp_all add: valid_fields_def)
  have h: "hour12 (hour ?f) < 100"
    using hour12_range [of "hour ?f"] by simp
  show ?thesis
    unfolding UTC_Format_def layout_chunks_DATEFMT timestamp_text_def
    by (simp add: appendInt_2 [OF b(1)] appendInt_2 [OF b(2)] appendInt_2 [OF b(3)]
        appendInt_2 [OF b(4)] appendInt_2 [OF h] appendInt_4 [OF assms])
qed

lemma example_fields:
  "UTC_Fields (Unix 1700000000) =
     \<lparr>year = 2023, month = 11, day = 14, hour = 22, minute = 13, second = 20\<rparr>"
proof -
  have s: "Time_abs (Unix 1700000000) - 9223372028715321600 = 1700000000"
    by (simp add: Time_abs_def unixToInternal_def internalToAbsolute_def)
  have a: "absDate 19675 = (2023, 317)"
    by (simp add: absDate_def Let_def)
  have m: "month_day False 317 = (11, 14)"
    by (simp add: month_day_def Let_def daysBefore_def)
  show ?thesis
    unfolding UTC_Fields_def s by (simp add: a m isLeap_def)
qed

lemma example_fields_end:
  "UTC_Fields (Unix 1700003600) =
     \<lparr>year = 2023, month = 11, day = 14, hour = 23, minute = 13, second = 20\<rparr>"
proof -
  have s: "Time_abs (Unix 1700003600) - 9223372028715321600 = 1700003600"
    by (simp add: Time_abs_def unixToInternal_def internalToAbsolute_def)
  have a: "absDate 19675 = (2023, 317)"
    by (simp add: absDate_def Let_def)
  have m: "month_day False 317 = (11, 14)"
    by (simp add: month_day_def Let_def daysBefore_def)
  show ?thesis
    unfolding UTC_Fields_def s by (simp add: a m isLeap_def)
qed

lemma example_report_dates:
  "DateBegin example_report = Unix 1700000000" "DateEnd example_report = Unix 1700003600"
  by (simp_all add: example_report_def new_Report_def AggregateReport_DateBegin_def
      AggregateReport_DateEnd_def example_document_def TrimSpace_examples
      Atoi_def ParseUint_def is_digit_def digit_val_def maxUint64_def)

lemma char_of_digits:
  "char_of (48::nat) = CHR ''0''" "char_of (49::nat) = CHR ''1''" "char_of (50::nat) = CHR ''2''"
  "char_of (51::nat) = CHR ''3''" "char_of (52::nat) = CHR ''4''" "char_of (53::nat) = CHR ''5''"
  "char_of (54::nat) = CHR ''6''" "char_of (55::nat) = CHR ''7''" "char_of (56::nat) = CHR ''8''"
  "char_of (57::nat) = CHR ''9''"
  by code_simp+

lemma example_text_24: "timestamp_text (UTC_Fields (Unix 1700000000)) (hour (UTC_Fields (Unix 1700000000)))
  = ''2023-11-14 22:13:20''"
  unfolding example_fields by (simp add: timestamp_text_def two_digits_def four_digits_def char_of_digits)

lemma example_text_12: "timestamp_text (UTC_Fields (Unix 1700000000)) (hour12 (hour (UTC_Fields (Unix 1700000000))))
  = ''2023-11-14 10:13:20''"
  unfolding example_fields by (simp add: timestamp_text_def two_digits_def four_digits_def hour12_def char_of_digits)

lemma layout_chunks_24:
  "layout_chunks (DATEFMT_flag True) =
     [stdLongYear, Literal CHR ''-'', stdZeroMonth, Literal CHR ''-'', stdZeroDay,
      Literal CHR '' '', stdHour, Literal CHR '':'', stdZeroMinute, Literal CHR '':'',
      stdZeroSecond]"
  unfolding DATEFMT_flag_def by code_simp

lemma UTC_Format_24:
  assumes "0 \<le> year (UTC_Fields t)" and "year (UTC_Fields t) \<le> 9999"
  shows "UTC_Format t (DATEFMT_flag True) = timestamp_text (UTC_Fields t) (hour (UTC_Fields t))"
proof -
  let ?f = "UTC_Fields t"
  have v: "valid_fields ?f" using UTC_Fields_calendar by simp
  then have "day ?f \<le> 31"
    using days_in_month_le [of "month ?f" "year ?f"] by (simp add: valid_fields_def)
  with v have b: "month ?f < 100" "day ?f < 100" "minute ?f < 100" "second ?f < 100"
    "hour ?f < 100"
    by (simp_all add: valid_fields_def)
  show ?thesis
    unfolding UTC_Format_def layout_chunks_24 timestamp_text_def
    by (simp add: appendInt_2 [OF b(1)] appendInt_2 [OF b(2)] appendInt_2 [OF b(3)]
        appendInt_2 [OF b(4)] appendInt_2 [OF b(5)] appendInt_4 [OF assms])
qed

lemma Report_Format_lines:
  "l \<in> set (Report_Format r ks) \<Longrightarrow> \<exists>row. l = Format_row r row"
  by (auto simp: Report_Format_def split: option.splits)

lemma example_line:
  "Report_Format example_report [''example.com''] =
     [Format_row example_report
        \<lparr>ReportRow.HeaderFrom = ''example.com'', DKIMPass = 10, DKIMFail = 5, SPFPass = 10,
         SPFFail = 5, PolicyNone = 10, PolicyQuarantine = 0, PolicyReject = 5\<rparr>]"
  by (simp add: Report_Format_def example_report_def)

lemma example_fields_10000:
  "UTC_Fields (Unix 253402300800) =
     \<lparr>year = 10000, month = 1, day = 1, hour = 0, minute = 0, second = 0\<rparr>"
proof -
  have s: "Time_abs (Unix 253402300800) - 9223372028715321600 = 253402300800"
    by (simp add: Time_abs_def unixToInternal_def internalToAbsolute_def)
  have a: "absDate 2932897 = (10000, 0)"
    by (simp add: absDate_def Let_def)
  have m: "month_day True 0 = (1, 1)"
    by (simp add: month_day_def Let_def daysBefore_def)
  show ?thesis
    unfolding UTC_Fields_def s by (simp add: a m isLeap_def)
qed

text \<open>
  The least Unix time is before the absolute zero year: its absolute seconds wrap
  around, and the calendar gives the year 292277026596.
\<close>

lemma example_fields_wrapped:
  "UTC_Fields (Unix (- 9223372036854775808)) =
     \<lparr>year = 292277026596, month = 12, day = 4, hour = 15, minute = 30, second = 8\<rparr>"
proof -
  have s: "Time_abs (Unix (- 9223372036854775808)) - 9223372028715321600 = 9223372036854775808"
    by (simp add: Time_abs_def unixToInternal_def internalToAbsolute_def)
  have a: "absDate 106751991167300 = (292277026596, 338)"
    by (simp add: absDate_def Let_def)
  have m: "month_day True 338 = (12, 4)"
    by (simp add: month_day_def Let_def daysBefore_def)
  show ?thesis
    unfolding UTC_Fields_def s by (simp add: a m isLeap_def)
qed

lemma example_text_10000:
  "UTC_Format (Unix 253402300800) DATEFMT = ''10000-01-01 12:00:00''"
proof -
  have d: "digits_of 10000 = ''10000''"
    by (simp add: digits_of.simps char_of_digits)
  then have y: "appendInt 10000 4 = ''10000''"
    by (simp add: appendInt_def)
  have z: "appendInt 0 2 = ''00''" "appendInt 1 2 = ''01''" "appendInt 12 2 = ''12''"
    using appendInt_2 [of 0] appendInt_2 [of 1] appendInt_2 [of 12]
    by (simp_all add: two_digits_def char_of_digits)
  show ?thesis
    unfolding UTC_Format_def layout_chunks_DATEFMT example_fields_10000
    by (simp add: hour12_def y z)
qed

text \<open>
  Against C1 as it is stated. The layout of \<open>Format\<close> has the code \<^verbatim>\<open>03\<close>, the hour of
  the 12-hour clock, where the 24-hour clock is \<^verbatim>\<open>15\<close>. The report of the scenario
  begins at epoch 1700000000, which is 2023-11-14 22:13:20 in UTC; its line has
  2023-11-14 10:13:20 in the date-begin column. And the first second of the year 10000
  is printed with a year of five digits, as 10000-01-01 12:00:00.
\<close>

theorem Format_12_hour_counterexample:
  "DateBegin example_report = Unix 1700000000 \<and>
   map col_DateBegin (Report_Format example_report [''example.com'']) = [''2023-11-14 10:13:20''] \<and>
   timestamp_text (UTC_Fields (Unix 1700000000)) (hour (UTC_Fields (Unix 1700000000)))
     = ''2023-11-14 22:13:20'' \<and>
   col_DateBegin (Format_row (example_dated 253402300800 ''Google'' ''example.com'')
     (new_ReportRow ''example.com'')) = ''10000-01-01 12:00:00''"
proof -
  have y: "0 \<le> year (UTC_Fields (Unix 1700000000))" "year (UTC_Fields (Unix 1700000000)) \<le> 9999"
    by (simp_all add: example_fields)
  have "UTC_Format (Unix 1700000000) DATEFMT = ''2023-11-14 10:13:20''"
    unfolding UTC_Format_DATEFMT [OF y] by (rule example_text_12)
  then have "map col_DateBegin (Report_Format example_report [''example.com''])
      = [''2023-11-14 10:13:20'']"
    by (simp add: example_line Format_row_def example_report_dates)
  moreover have "col_DateBegin (Format_row (example_dated 253402300800 ''Google'' ''example.com'')
     (new_ReportRow ''example.com'')) = ''10000-01-01 12:00:00''"
    by (simp add: Format_row_def example_dated_def example_text_10000)
  ultimately show ?thesis
    using example_report_dates(1) example_text_24 by simp
qed

text \<open>
  C1, amended. For every line that \<open>Format\<close> prints for a report whose two timestamps
  fall in the years 0 to 9999 of the UTC calendar, the date-begin and date-end columns
  are the texts \<^verbatim>\<open>YYYY-MM-DD hh:MM:SS\<close> of 19 bytes made of the year, month, day, minute
  and second of the timestamp in UTC and of its hour \<^verbatim>\<open>hh\<close> on the 12-hour clock (01 to
  12, congruent modulo 12 to the hour of the day, with no mark of the half of the day).
  The fields are a date and time of the calendar, and counting the seconds from the
  epoch to that date and time gives the stored timestamp back.
\<close>

theorem Format_dates:
  assumes "l \<in> set (Report_Format r ks)"
    and "0 \<le> year (UTC_Fields (DateBegin r))" and "year (UTC_Fields (DateBegin r)) \<le> 9999"
    and "0 \<le> year (UTC_Fields (DateEnd r))" and "year (UTC_Fields (DateEnd r)) \<le> 9999"
  shows "col_DateBegin l =
           timestamp_text (UTC_Fields (DateBegin r)) (hour12 (hour (UTC_Fields (DateBegin r)))) \<and>
         col_DateEnd l =
           timestamp_text (UTC_Fields (DateEnd r)) (hour12 (hour (UTC_Fields (DateEnd r)))) \<and>
         length (col_DateBegin l) = 19 \<and> length (col_DateEnd l) = 19 \<and>
         valid_fields (UTC_Fields (DateBegin r)) \<and>
         civil_seconds (UTC_Fields (DateBegin r)) = sint (Time_Unix (DateBegin r)) \<and>
         valid_fields (UTC_Fields (DateEnd r)) \<and>
         civil_seconds (UTC_Fields (DateEnd r)) = sint (Time_Unix (DateEnd r)) \<and>
         1 \<le> hour12 (hour (UTC_Fields (DateBegin r))) \<and>
         hour12 (hour (UTC_Fields (DateBegin r))) \<le> 12 \<and>
         hour12 (hour (UTC_Fields (DateBegin r))) mod 12 = hour (UTC_Fields (DateBegin r)) mod 12 \<and>
         1 \<le> hour12 (hour (UTC_Fields (DateEnd r))) \<and>
         hour12 (hour (UTC_Fields (DateEnd r))) \<le> 12 \<and>
         hour12 (hour (UTC_Fields (DateEnd r))) mod 12 = hour (UTC_Fields (DateEnd r)) mod 12"
proof -
  from assms(1) obtain row where l: "l = Format_row r row"
    using Report_Format_lines by blast
  have b: "col_DateBegin l =
      timestamp_text (UTC_Fields (DateBegin r)) (hour12 (hour (UTC_Fields (DateBegin r))))"
    unfolding l by (simp add: Format_row_def UTC_Format_DATEFMT [OF assms(2,3)])
  have e: "col_DateEnd l =
      timestamp_text (UTC_Fields (DateEnd r)) (hour12 (hour (UTC_Fields (DateEnd r))))"
    unfolding l by (simp add: Format_row_def UTC_Format_DATEFMT [OF assms(4,5)])
  have len: "length (timestamp_text f h) = 19" for f h
    by (simp add: timestamp_text_def two_digits_def four_digits_def)
  from b e len UTC_Fields_calendar [of "DateBegin r"] UTC_Fields_calendar [of "DateEnd r"]
    UTC_Fields_Unix [OF assms(2,3)] UTC_Fields_Unix [OF assms(4,5)]
    hour12_range [of "hour (UTC_Fields (DateBegin r))"]
    hour12_range [of "hour (UTC_Fields (DateEnd r))"]
  show ?thesis by simp
qed

theorem Format_dates_witness:
  "Report_Format example_report [''example.com''] \<noteq> [] \<and>
   year (UTC_Fields (DateBegin example_report)) = 2023 \<and>
   year (UTC_Fields (DateEnd example_report)) = 2023 \<and>
   map col_DateBegin (Report_Format example_report [''example.com'']) = [''2023-11-14 10:13:20''] \<and>
   map col_DateEnd (Report_Format example_report [''example.com'']) = [''2023-11-14 11:13:20'']"
proof -
  let ?l = "Format_row example_report
        \<lparr>ReportRow.HeaderFrom = ''example.com'', DKIMPass = 10, DKIMFail = 5, SPFPass = 10,
         SPFFail = 5, PolicyNone = 10, PolicyQuarantine = 0, PolicyReject = 5\<rparr>"
  have l: "?l \<in> set (Report_Format example_report [''example.com''])"
    by (simp add: example_line)
  have y: "0 \<le> year (UTC_Fields (DateBegin example_report))"
    "year (UTC_Fields (DateBegin example_report)) \<le> 9999"
    "0 \<le> year (UTC_Fields (DateEnd example_report))"
    "year (UTC_Fields (DateEnd example_report)) \<le> 9999"
    by (simp_all add: example_report_dates example_fields example_fields_end)
  have "col_DateBegin ?l = ''2023-11-14 10:13:20'' \<and> col_DateEnd ?l = ''2023-11-14 11:13:20''"
    using Format_dates [OF l y]
    by (simp add: example_report_dates example_fields example_fields_end timestamp_text_def
        two_digits_def four_digits_def hour12_def char_of_digits)
  then show ?thesis
    by (simp add: example_line example_report_dates example_fields example_fields_end)
qed

end
